theory Spec2Isabelle
  imports Complex_Main
begin

section \<open>Promises, reactions and the job queue\<close>

text \<open>
  The utilities \<^verbatim>\<open>delay\<close>, \<^verbatim>\<open>delayWithResult\<close> and \<^verbatim>\<open>properRace\<close> are written against the
  promise machinery of the host language.  The machinery is embedded as explicit state
  passing, following the abstract operations of the language standard (ECMAScript, Promise
  objects): a store of promise objects addressed by identity, the FIFO queue of promise
  jobs, and the list of pending timers.  Everything is single threaded: the program runs one
  event at a time, and the order of settlements is the order of these events.

  A promise is identified by the position at which it was allocated (\<open>pid\<close>); two
  references are the same operation exactly when the identifiers are equal.
\<close>

type_synonym pid = nat

text \<open>
  Values of the program.  \<open>Num\<close> holds the integral numbers the utilities handle (array
  indices); \<open>Obj\<close> is an object given by its fields in order; \<open>PromiseRef\<close> is a reference
  to a promise; \<open>TypeError\<close> is the error object the promise machinery itself creates.
  \<open>ThenFn\<close> is a function written to serve as the \<^verbatim>\<open>then\<close> method of an object: called
  with a resolving and a rejecting function, it calls the first with a value, or the
  second with a value, or throws a value, or returns without calling either.
  \<open>ThrowingGetter\<close> stands, as the content of a field, for an accessor whose read throws the
  value.
\<close>

datatype val =
    Undefined
  | Num int
  | Str string
  | Bool bool
  | PromiseRef pid
  | Obj "(string \<times> val) list"
  | TypeError string
  | ThenFn then_body
  | ThrowingGetter val
and then_body =
    CallsResolve val
  | CallsReject val
  | ThrowsError val
  | ReturnsOnly

text \<open>A completion is a normal result or a thrown value; any value can be thrown.\<close>

datatype completion = Normal val | Throw val

text \<open>
  Functions are data, one constructor for each closure the utilities and the machinery
  create: \<open>IndexOf index\<close> is the arrow function \<^verbatim>\<open>() => index\<close> of \<^verbatim>\<open>properRace\<close>;
  \<open>ResolveFn p\<close> and \<open>RejectFn p\<close> are the resolving functions of promise \<open>p\<close> made when \<open>p\<close>
  is constructed; \<open>AdoptResolve p\<close> and \<open>AdoptReject p\<close> are the second pair made for \<open>p\<close>
  when it adopts the state of a thenable; \<open>RaceResume promiseArray res\<close> and
  \<open>RaceThrow res\<close> continue \<^verbatim>\<open>properRace\<close> at its \<^verbatim>\<open>await\<close> (with the value awaited, or by
  throwing the reason), \<open>res\<close> being the promise the async function has returned;
  \<open>DelayResume result res\<close> and \<open>DelayThrow res\<close> do the same for \<^verbatim>\<open>delayWithResult\<close>.
\<close>

datatype callback =
    IndexOf nat
  | ResolveFn pid
  | RejectFn pid
  | AdoptResolve pid
  | AdoptReject pid
  | RaceResume "pid list" pid
  | RaceThrow pid
  | DelayResume val pid
  | DelayThrow pid

text \<open>
  A reaction is what one call of \<^verbatim>\<open>then\<close> (or one \<^verbatim>\<open>await\<close>) registers on a promise: the
  handler for fulfilment, the handler for rejection (either may be absent), and the derived
  promise to resolve with the handler's result (absent for \<^verbatim>\<open>await\<close>).
\<close>

datatype reaction =
  Reaction (on_fulfilled: "callback option") (on_rejected: "callback option")
    (capability: "pid option")

text \<open>
  Promise jobs: running one handler of a reaction on the completion of the promise it was
  registered on, or making a promise adopt the state of a thenable, which is another
  promise or an object with a \<^verbatim>\<open>then\<close> method.
\<close>

datatype job =
    ReactionJob "callback option" "pid option" completion
  | ThenableJob pid pid
  | ObjectThenJob pid then_body

datatype pstate = Pending | Fulfilled val | Rejected val

text \<open>
  A promise object: its state, the reactions waiting for it, and the flag shared by its
  two resolving functions that makes every call after the first a no-op.
\<close>

record promise =
  pstate :: pstate
  reactions :: "reaction list"
  resolved :: bool

record state =
  next_id :: pid
  store :: "pid \<Rightarrow> promise"
  queue :: "job list"
  timers :: "(nat \<times> callback) list"
  now :: nat

definition fresh_promise :: promise where
  "fresh_promise = \<lparr>pstate = Pending, reactions = [], resolved = False\<rparr>"

definition empty_state :: state where
  "empty_state = \<lparr>next_id = 0, store = (\<lambda>_. fresh_promise), queue = [], timers = [], now = 0\<rparr>"

text \<open>Allocation of a promise object: the next identifier, pending, nothing registered.\<close>

definition new_promise :: "state \<Rightarrow> pid \<times> state" where
  "new_promise s =
     (next_id s, s\<lparr>next_id := Suc (next_id s), store := (store s)(next_id s := fresh_promise)\<rparr>)"

definition enqueue :: "job list \<Rightarrow> state \<Rightarrow> state" where
  "enqueue js s = s\<lparr>queue := queue s @ js\<rparr>"

fun settled_as :: "completion \<Rightarrow> pstate" where
  "settled_as (Normal v) = Fulfilled v"
| "settled_as (Throw e) = Rejected e"

fun reaction_job :: "completion \<Rightarrow> reaction \<Rightarrow> job" where
  "reaction_job (Normal v) r = ReactionJob (on_fulfilled r) (capability r) (Normal v)"
| "reaction_job (Throw e) r = ReactionJob (on_rejected r) (capability r) (Throw e)"

text \<open>
  Settling a promise (the standard's FulfillPromise and RejectPromise): the state
  changes, the registered reactions are cleared and one job for each is queued, in the order
  of registration.  The standard asserts that the promise is pending; here a settled promise
  is left as it is.
\<close>

definition settle :: "pid \<Rightarrow> completion \<Rightarrow> state \<Rightarrow> state" where
  "settle p c s =
     (if pstate (store s p) \<noteq> Pending then s
      else enqueue (map (reaction_job c) (reactions (store s p)))
             (s\<lparr>store := (store s)(p := (store s p)\<lparr>pstate := settled_as c, reactions := []\<rparr>)\<rparr>))"

text \<open>
  Reading the property \<^verbatim>\<open>then\<close> of a value other than a promise: the read gives a function
  that can be called, or it throws, or it gives anything else (nothing, for a value without
  the property).  A value is plain when it is not a promise and its \<^verbatim>\<open>then\<close> reads as
  something that cannot be called.
\<close>

datatype then_lookup = NotCallable | Callable then_body | ReadThrows val

fun then_of :: "val \<Rightarrow> then_lookup" where
  "then_of (Obj fs) =
     (case map_of fs ''then'' of
        Some (ThenFn b) \<Rightarrow> Callable b
      | Some (ThrowingGetter e) \<Rightarrow> ReadThrows e
      | _ \<Rightarrow> NotCallable)"
| "then_of _ = NotCallable"

fun plain_value :: "val \<Rightarrow> bool" where
  "plain_value (PromiseRef q) = False"
| "plain_value v = (then_of v = NotCallable)"

text \<open>
  Resolving a promise with a value: a promise cannot be resolved with itself; a thenable
  (a promise, or an object whose \<^verbatim>\<open>then\<close> can be called) is adopted by a job that calls its
  \<^verbatim>\<open>then\<close>; an exception on reading \<^verbatim>\<open>then\<close> rejects; any other value fulfils.
\<close>

definition resolve_promise :: "pid \<Rightarrow> val \<Rightarrow> state \<Rightarrow> state" where
  "resolve_promise p v s =
     (case v of
        PromiseRef q \<Rightarrow>
          if q = p then settle p (Throw (TypeError ''Chaining cycle detected for promise'')) s
          else enqueue [ThenableJob p q] s
      | _ \<Rightarrow>
          (case then_of v of
             Callable b \<Rightarrow> enqueue [ObjectThenJob p b] s
           | ReadThrows e \<Rightarrow> settle p (Throw e) s
           | NotCallable \<Rightarrow> settle p (Normal v) s))"

definition lock :: "pid \<Rightarrow> state \<Rightarrow> state" where
  "lock p s = s\<lparr>store := (store s)(p := (store s p)\<lparr>resolved := True\<rparr>)\<rparr>"

text \<open>The resolving functions of a promise; only the first call of either has an effect.\<close>

definition resolve_fn :: "pid \<Rightarrow> val \<Rightarrow> state \<Rightarrow> state" where
  "resolve_fn p v s = (if resolved (store s p) then s else resolve_promise p v (lock p s))"

definition reject_fn :: "pid \<Rightarrow> val \<Rightarrow> state \<Rightarrow> state" where
  "reject_fn p e s = (if resolved (store s p) then s else settle p (Throw e) (lock p s))"

text \<open>
  The standard's PerformPromiseThen: on a pending promise the reaction is registered; on a
  settled one the job for the matching handler is queued at once.
\<close>

definition perform_then ::
  "pid \<Rightarrow> callback option \<Rightarrow> callback option \<Rightarrow> pid option \<Rightarrow> state \<Rightarrow> state" where
  "perform_then p onF onR cap s =
     (case pstate (store s p) of
        Pending \<Rightarrow>
          s\<lparr>store := (store s)(p := (store s p)
               \<lparr>reactions := reactions (store s p) @ [Reaction onF onR cap]\<rparr>)\<rparr>
      | Fulfilled v \<Rightarrow> enqueue [ReactionJob onF cap (Normal v)] s
      | Rejected e \<Rightarrow> enqueue [ReactionJob onR cap (Throw e)] s)"

text \<open>\<^verbatim>\<open>p.then(onF, onR)\<close>: the derived promise is created first and returned.\<close>

definition then_call ::
  "pid \<Rightarrow> callback option \<Rightarrow> callback option \<Rightarrow> state \<Rightarrow> pid \<times> state" where
  "then_call p onF onR s =
     (let (d, s1) = new_promise s in (d, perform_then p onF onR (Some d) s1))"

text \<open>
  A promise object is an instance of the built-in class \<^verbatim>\<open>Promise\<close> itself or of a subclass
  of it.  The subclasses of the model inherit everything (\<^verbatim>\<open>class P extends Promise {}\<close>):
  their instances are promises in the store like any other, and the class is known from
  the reference.  The class matters in two places.  A \<^verbatim>\<open>then\<close> derives a promise of the
  class of its receiver (the species constructor), and \<^verbatim>\<open>Promise.resolve(x)\<close>, which
  \<^verbatim>\<open>Promise.race\<close> applies to each element and \<^verbatim>\<open>await\<close> to its operand, returns \<open>x\<close> itself
  only for an instance of \<^verbatim>\<open>Promise\<close>; for an instance of a subclass it returns a new
  promise resolved with \<open>x\<close>, which adopts the state of \<open>x\<close> two jobs later.
\<close>

datatype species = Builtin | Subclass

type_synonym ref = "species \<times> pid"

definition then_ref ::
  "ref \<Rightarrow> callback option \<Rightarrow> callback option \<Rightarrow> state \<Rightarrow> ref \<times> state" where
  "then_ref x onF onR s = (let (d, s1) = then_call (snd x) onF onR s in ((fst x, d), s1))"

fun promise_resolve :: "ref \<Rightarrow> state \<Rightarrow> pid \<times> state" where
  "promise_resolve (Builtin, p) s = (p, s)"
| "promise_resolve (Subclass, p) s =
     (let (w, s1) = new_promise s in (w, resolve_fn w (PromiseRef p) s1))"

text \<open>
  \<^verbatim>\<open>await x\<close> on a promise (the standard since its 2019 edition): the two continuations of
  the async function are registered on \<^verbatim>\<open>Promise.resolve(x)\<close>, with no derived promise.
  Earlier editions and down-level compilation wrap every operand in a helper promise, which
  takes more jobs but leads to the same continuation with the same completion.
\<close>

definition await :: "ref \<Rightarrow> callback \<Rightarrow> callback \<Rightarrow> state \<Rightarrow> state" where
  "await x resume throw s =
     (let (p, s1) = promise_resolve x s in perform_then p (Some resume) (Some throw) None s1)"

text \<open>
  \<^verbatim>\<open>promiseArray[firstFinishedIndex]\<close>: the element at an integral index in range,
  \<^verbatim>\<open>undefined\<close> out of range.  The index is typed \<^verbatim>\<open>number\<close> in the source; for the other
  values, which never reach this read (\<open>race_inv_index_settled\<close> below), the model gives
  \<^verbatim>\<open>undefined\<close>.
\<close>

fun array_get :: "pid list \<Rightarrow> val \<Rightarrow> val" where
  "array_get arr (Num i) =
     (if 0 \<le> i \<and> nat i < length arr then PromiseRef (arr ! nat i) else Undefined)"
| "array_get arr _ = Undefined"

fun completion_val :: "completion \<Rightarrow> val" where
  "completion_val (Normal v) = v"
| "completion_val (Throw e) = e"

text \<open>
  Calling a function with one argument: its completion and its effect on the state.  The
  continuation of \<^verbatim>\<open>properRace\<close> (lines 35 to 43 of the source) looks the winner up and
  returns the object \<^verbatim>\<open>{ promise: firstFinishedPromise }\<close>, which resolves the promise of the
  async function; an exception at the \<^verbatim>\<open>await\<close> rejects it.  The continuation of
  \<^verbatim>\<open>delayWithResult\<close> (line 7) returns \<^verbatim>\<open>result\<close>.
\<close>

fun run_callback :: "callback \<Rightarrow> val \<Rightarrow> state \<Rightarrow> completion \<times> state" where
  "run_callback (IndexOf i) v s = (Normal (Num (int i)), s)"
| "run_callback (ResolveFn p) v s = (Normal Undefined, resolve_fn p v s)"
| "run_callback (RejectFn p) v s = (Normal Undefined, reject_fn p v s)"
| "run_callback (AdoptResolve p) v s = (Normal Undefined, resolve_promise p v s)"
| "run_callback (AdoptReject p) v s = (Normal Undefined, settle p (Throw v) s)"
| "run_callback (RaceResume promiseArray res) firstFinishedIndex s =
     (Normal Undefined,
      resolve_fn res (Obj [(''promise'', array_get promiseArray firstFinishedIndex)]) s)"
| "run_callback (RaceThrow res) v s = (Normal Undefined, reject_fn res v s)"
| "run_callback (DelayResume result res) v s = (Normal Undefined, resolve_fn res result s)"
| "run_callback (DelayThrow res) v s = (Normal Undefined, reject_fn res v s)"

text \<open>
  A reaction job: an absent handler passes the completion through; the result of the
  handler resolves, or its exception rejects, the derived promise if there is one.
\<close>

fun run_handler :: "callback option \<Rightarrow> completion \<Rightarrow> state \<Rightarrow> completion \<times> state" where
  "run_handler None c s = (c, s)"
| "run_handler (Some cb) c s = run_callback cb (completion_val c) s"

fun resolve_capability :: "pid option \<Rightarrow> completion \<Rightarrow> state \<Rightarrow> state" where
  "resolve_capability None c s = s"
| "resolve_capability (Some d) (Normal x) s = resolve_fn d x s"
| "resolve_capability (Some d) (Throw e) s = reject_fn d e s"

text \<open>
  The thenable job calls the \<^verbatim>\<open>then\<close> of the thenable with a new pair of resolving
  functions for \<open>p\<close>.  That pair has a flag of its own, and a promise, like each of the
  functions \<open>ThenFn\<close>, calls at most one of the two, once; so the pair is modelled without a
  flag.  An exception thrown by \<^verbatim>\<open>then\<close> rejects \<open>p\<close>.
\<close>

fun run_then :: "then_body \<Rightarrow> pid \<Rightarrow> state \<Rightarrow> state" where
  "run_then (CallsResolve v) p s = snd (run_callback (AdoptResolve p) v s)"
| "run_then (CallsReject e) p s = snd (run_callback (AdoptReject p) e s)"
| "run_then (ThrowsError e) p s = snd (run_callback (AdoptReject p) e s)"
| "run_then ReturnsOnly p s = s"

fun run_job :: "job \<Rightarrow> state \<Rightarrow> state" where
  "run_job (ReactionJob h cap c) s =
     (let (res, s1) = run_handler h c s in resolve_capability cap res s1)"
| "run_job (ThenableJob p q) s =
     snd (then_call q (Some (AdoptResolve p)) (Some (AdoptReject p)) s)"
| "run_job (ObjectThenJob p b) s = run_then b p s"

text \<open>One turn of the job queue, and \<open>n\<close> turns.  On an empty queue nothing happens.\<close>

definition tick :: "state \<Rightarrow> state" where
  "tick s = (case queue s of [] \<Rightarrow> s | j # js \<Rightarrow> run_job j (s\<lparr>queue := js\<rparr>))"

fun ticks :: "nat \<Rightarrow> state \<Rightarrow> state" where
  "ticks 0 s = s"
| "ticks (Suc n) s = ticks n (tick s)"

section \<open>Timers\<close>

text \<open>
  \<^verbatim>\<open>setTimeout(cb, ms)\<close> records the callback with the time at which it is due (durations
  are whole milliseconds, a negative one counts as zero); firing a timer removes it and
  calls the callback without arguments.
\<close>

definition set_timeout :: "callback \<Rightarrow> int \<Rightarrow> state \<Rightarrow> state" where
  "set_timeout cb ms s = s\<lparr>timers := timers s @ [(now s + nat ms, cb)]\<rparr>"

definition fire :: "nat \<Rightarrow> state \<Rightarrow> state" where
  "fire i s =
     (if i < length (timers s) then
        (let (due, cb) = timers s ! i in
         snd (run_callback cb Undefined
                (s\<lparr>timers := take i (timers s) @ drop (Suc i) (timers s),
                   now := max (now s) due\<rparr>)))
      else s)"

section \<open>The utilities\<close>

text \<open>
  \<^verbatim>\<open>delay\<close> (lines 1 to 3): \<^verbatim>\<open>new Promise(resolve => setTimeout(resolve, milliseconds))\<close>.
\<close>

definition delay :: "int \<Rightarrow> state \<Rightarrow> pid \<times> state" where
  "delay milliseconds s =
     (let (p, s1) = new_promise s in (p, set_timeout (ResolveFn p) milliseconds s1))"

text \<open>
  \<^verbatim>\<open>delayWithResult\<close> (lines 5 to 8), an async function: its promise is created at the call,
  the body runs up to \<^verbatim>\<open>await delay(milliseconds)\<close>, and the promise is returned.  The
  promise of \<^verbatim>\<open>delay\<close> is made by \<^verbatim>\<open>new Promise\<close>, an instance of the built-in class.
\<close>

definition delayWithResult :: "val \<Rightarrow> int \<Rightarrow> state \<Rightarrow> pid \<times> state" where
  "delayWithResult result milliseconds s =
     (let (res, s1) = new_promise s;
          (p, s2) = delay milliseconds s1
      in (res, await (Builtin, p) (DelayResume result res) (DelayThrow res) s2))"

text \<open>
  \<^verbatim>\<open>promiseArray.map((promise, index) => promise.then(() => index))\<close> (line 30), from index
  \<open>index\<close> on.
\<close>

fun map_then :: "ref list \<Rightarrow> nat \<Rightarrow> state \<Rightarrow> ref list \<times> state" where
  "map_then [] index s = ([], s)"
| "map_then (promise # ps) index s =
     (let (d, s1) = then_ref promise (Some (IndexOf index)) None s;
          (ds, s2) = map_then ps (Suc index) s1
      in (d # ds, s2))"

text \<open>
  \<^verbatim>\<open>Promise.race\<close>: a new promise \<open>r\<close>, and for each element in turn
  \<^verbatim>\<open>Promise.resolve(element).then(resolve, reject)\<close> with the two resolving functions of \<open>r\<close>.
\<close>

fun race_each :: "ref list \<Rightarrow> pid \<Rightarrow> state \<Rightarrow> state" where
  "race_each [] r s = s"
| "race_each (x # xs) r s =
     (let (p, s1) = promise_resolve x s
      in race_each xs r (snd (then_call p (Some (ResolveFn r)) (Some (RejectFn r)) s1)))"

definition promise_race :: "ref list \<Rightarrow> state \<Rightarrow> pid \<times> state" where
  "promise_race xs s = (let (r, s1) = new_promise s in (r, race_each xs r s1))"

text \<open>
  \<^verbatim>\<open>properRace\<close> (lines 14 to 44) up to its \<^verbatim>\<open>await\<close>: the call returns the promise of the
  async function; the rest of the body is the continuation \<open>RaceResume\<close>.  The promise of
  \<^verbatim>\<open>Promise.race\<close> is an instance of the built-in class.  \<open>properRace_refs\<close> takes the two
  arguments with their classes; \<open>properRace\<close> is the function for two arguments that are
  instances of \<^verbatim>\<open>Promise\<close> itself, as \<^verbatim>\<open>new Promise\<close> and the async functions make them.
\<close>

definition properRace_refs :: "ref \<Rightarrow> ref \<Rightarrow> state \<Rightarrow> pid \<times> state" where
  "properRace_refs first second s =
     (let (res, s1) = new_promise s;
          promiseArray = [first, second];
          (indexPromises, s2) = map_then promiseArray 0 s1;
          (r, s3) = promise_race indexPromises s2
      in (res, await (Builtin, r) (RaceResume (map snd promiseArray) res) (RaceThrow res) s3))"

definition properRace :: "pid \<Rightarrow> pid \<Rightarrow> state \<Rightarrow> pid \<times> state" where
  "properRace first second s = properRace_refs (Builtin, first) (Builtin, second) s"

section \<open>The environment of a call\<close>

text \<open>
  The promises that a function, a reaction or a job can settle: the promise of a resolving
  function or of a continuation, and the derived promise of a reaction.
\<close>

fun cb_targets :: "callback \<Rightarrow> pid set" where
  "cb_targets (IndexOf i) = {}"
| "cb_targets (ResolveFn p) = {p}"
| "cb_targets (RejectFn p) = {p}"
| "cb_targets (AdoptResolve p) = {p}"
| "cb_targets (AdoptReject p) = {p}"
| "cb_targets (RaceResume arr res) = {res}"
| "cb_targets (RaceThrow res) = {res}"
| "cb_targets (DelayResume r res) = {res}"
| "cb_targets (DelayThrow res) = {res}"

fun handler_targets :: "callback option \<Rightarrow> pid set" where
  "handler_targets None = {}"
| "handler_targets (Some cb) = cb_targets cb"

definition reaction_targets :: "reaction \<Rightarrow> pid set" where
  "reaction_targets rc =
     handler_targets (on_fulfilled rc) \<union> handler_targets (on_rejected rc) \<union> set_option (capability rc)"

fun job_targets :: "job \<Rightarrow> pid set" where
  "job_targets (ReactionJob h cap c) = handler_targets h \<union> set_option cap"
| "job_targets (ThenableJob p q) = {p}"
| "job_targets (ObjectThenJob p b) = {p}"

text \<open>
  \<open>step_rel Q s s'\<close> relates a state to a later one: promises are only added, jobs are
  only appended to the queue as seen from \<open>s\<close>, a reaction registered on a pending promise
  stays registered or has become a job carrying the completion of that promise, the
  promises in \<open>Q\<close> are untouched apart from new reactions, and a settled promise keeps its
  state.
\<close>

definition step_rel :: "pid set \<Rightarrow> state \<Rightarrow> state \<Rightarrow> bool" where
  "step_rel Q s s' \<longleftrightarrow>
     next_id s \<le> next_id s' \<and>
     (\<exists>new. queue s' = queue s @ new) \<and>
     (\<forall>q rc. q < next_id s \<longrightarrow> pstate (store s q) = Pending \<longrightarrow>
        rc \<in> set (reactions (store s q)) \<longrightarrow>
        (pstate (store s' q) = Pending \<and> rc \<in> set (reactions (store s' q))) \<or>
        (\<exists>c. pstate (store s' q) = settled_as c \<and> reaction_job c rc \<in> set (queue s'))) \<and>
     (\<forall>p\<in>Q. pstate (store s' p) = pstate (store s p) \<and>
        resolved (store s' p) = resolved (store s p) \<and>
        set (reactions (store s p)) \<subseteq> set (reactions (store s' p))) \<and>
     (\<forall>q. q < next_id s \<longrightarrow> pstate (store s q) \<noteq> Pending \<longrightarrow>
        pstate (store s' q) = pstate (store s q))"

section \<open>The invariant of a race\<close>

text \<open>
  A call \<^verbatim>\<open>properRace(first, second)\<close> with two instances of \<^verbatim>\<open>Promise\<close> itself, in a state
  with \<open>next_id s = n\<close>, allocates, in this
  order: the promise \<open>n\<close> of the async function, the two promises \<open>n + 1\<close> and \<open>n + 2\<close> of
  \<^verbatim>\<open>promise.then(() => index)\<close>, the promise \<open>n + 3\<close> of \<^verbatim>\<open>Promise.race\<close>, and the two
  promises \<open>n + 4\<close> and \<open>n + 5\<close> derived inside \<^verbatim>\<open>Promise.race\<close>, which nobody holds.  It
  registers the reaction \<open>index_reaction n i\<close> on input \<open>i\<close>, the reaction
  \<open>race_reaction n i\<close> on the index promise \<open>n + 1 + i\<close>, and the reaction
  \<open>await_reaction first second n\<close> on the promise of \<^verbatim>\<open>Promise.race\<close>.
\<close>

definition index_reaction :: "pid \<Rightarrow> nat \<Rightarrow> reaction" where
  "index_reaction n i = Reaction (Some (IndexOf i)) None (Some (n + 1 + i))"

definition race_reaction :: "pid \<Rightarrow> nat \<Rightarrow> reaction" where
  "race_reaction n i = Reaction (Some (ResolveFn (n + 3))) (Some (RejectFn (n + 3))) (Some (n + 4 + i))"

definition await_reaction :: "pid \<Rightarrow> pid \<Rightarrow> pid \<Rightarrow> reaction" where
  "await_reaction f1 f2 n = Reaction (Some (RaceResume [f1, f2] n)) (Some (RaceThrow n)) None"

text \<open>
  The four promises that only the race itself settles.  The index promises and the promise
  of \<^verbatim>\<open>Promise.race\<close> are local to the call, and the resolving functions of the returned
  promise are kept by the async function: no other code has a function that settles one of
  them.
\<close>

definition prot :: "pid \<Rightarrow> pid set" where
  "prot n = {n, n + 1, n + 2, n + 3}"

text \<open>
  \<open>allowed first second n q rc\<close>: the reaction \<open>rc\<close> is one of the five reactions of the race
  and \<open>q\<close> is the promise it was registered on.
\<close>

definition allowed :: "pid \<Rightarrow> pid \<Rightarrow> pid \<Rightarrow> pid \<Rightarrow> reaction \<Rightarrow> bool" where
  "allowed f1 f2 n q rc \<longleftrightarrow>
     (\<exists>i<2. rc = index_reaction n i \<and> q = [f1, f2] ! i) \<or>
     (\<exists>i<2. rc = race_reaction n i \<and> q = n + 1 + i) \<or>
     (rc = await_reaction f1 f2 n \<and> q = n + 3)"

text \<open>
  What an index promise settles with, given the completion of its input
  (\<^verbatim>\<open>promise.then(() => index)\<close> has no rejection handler), and what the returned promise
  settles with, given the completion of \<^verbatim>\<open>Promise.race\<close>.
\<close>

fun index_result :: "nat \<Rightarrow> completion \<Rightarrow> completion" where
  "index_result i (Normal v) = Normal (Num (int i))"
| "index_result i (Throw e) = Throw e"

fun race_result :: "pid \<Rightarrow> pid \<Rightarrow> completion \<Rightarrow> completion" where
  "race_result f1 f2 (Normal v) = Normal (Obj [(''promise'', array_get [f1, f2] v)])"
| "race_result f1 f2 (Throw e) = Throw e"

text \<open>
  The invariant \<open>race_inv first second n\<close> of the call that returned promise \<open>n\<close>.  Every
  reaction, job and timer that can settle one of the four promises is one of the race's
  own, registered where the race registered it, and a job carries the completion of the
  promise its reaction was registered on (\<open>race_store\<close>, \<open>race_queue\<close>, \<open>race_timers\<close>); the
  resolving functions of a pending promise of the race have not been called (\<open>race_lock\<close>);
  and each of the promises is pending or settled as the one before it in the chain
  prescribes (\<open>race_pstate\<close>).
\<close>

definition race_store :: "pid \<Rightarrow> pid \<Rightarrow> pid \<Rightarrow> state \<Rightarrow> bool" where
  "race_store f1 f2 n s \<longleftrightarrow>
     (\<forall>q rc. rc \<in> set (reactions (store s q)) \<longrightarrow> reaction_targets rc \<inter> prot n \<noteq> {} \<longrightarrow>
        allowed f1 f2 n q rc)"

definition allowed_job :: "pid \<Rightarrow> pid \<Rightarrow> pid \<Rightarrow> state \<Rightarrow> job \<Rightarrow> bool" where
  "allowed_job f1 f2 n s j \<longleftrightarrow>
     (\<exists>q rc c. allowed f1 f2 n q rc \<and> j = reaction_job c rc \<and> pstate (store s q) = settled_as c)"

definition race_queue :: "pid \<Rightarrow> pid \<Rightarrow> pid \<Rightarrow> state \<Rightarrow> bool" where
  "race_queue f1 f2 n s \<longleftrightarrow>
     (\<forall>j\<in>set (queue s). job_targets j \<inter> prot n \<noteq> {} \<longrightarrow> allowed_job f1 f2 n s j)"

definition race_timers :: "pid \<Rightarrow> state \<Rightarrow> bool" where
  "race_timers n s \<longleftrightarrow> (\<forall>t\<in>set (timers s). cb_targets (snd t) \<inter> prot n = {})"

definition race_lock :: "pid \<Rightarrow> state \<Rightarrow> bool" where
  "race_lock n s \<longleftrightarrow> (\<forall>p\<in>prot n. pstate (store s p) = Pending \<longrightarrow> \<not> resolved (store s p))"

definition race_pstate :: "pid \<Rightarrow> pid \<Rightarrow> pid \<Rightarrow> state \<Rightarrow> bool" where
  "race_pstate f1 f2 n s \<longleftrightarrow>
     (\<forall>i<2. pstate (store s (n + 1 + i)) = Pending \<or>
        (\<exists>c. pstate (store s ([f1, f2] ! i)) = settled_as c \<and>
             pstate (store s (n + 1 + i)) = settled_as (index_result i c))) \<and>
     (pstate (store s (n + 3)) = Pending \<or>
        (\<exists>i<2. pstate (store s (n + 1 + i)) \<noteq> Pending \<and>
               pstate (store s (n + 3)) = pstate (store s (n + 1 + i)))) \<and>
     (pstate (store s n) = Pending \<or>
        (\<exists>c. pstate (store s (n + 3)) = settled_as c \<and>
             pstate (store s n) = settled_as (race_result f1 f2 c)))"

definition race_inv :: "pid \<Rightarrow> pid \<Rightarrow> pid \<Rightarrow> state \<Rightarrow> bool" where
  "race_inv f1 f2 n s \<longleftrightarrow>
     f1 < n \<and> f2 < n \<and> n + 3 < next_id s \<and>
     race_store f1 f2 n s \<and> race_queue f1 f2 n s \<and> race_timers n s \<and> race_lock n s \<and> race_pstate f1 f2 n s"

text \<open>
  Resolving with a plain value, and rejecting, both settle the promise unless one of its
  resolving functions has been called before.
\<close>

definition guarded_settle :: "pid \<Rightarrow> completion \<Rightarrow> state \<Rightarrow> state" where
  "guarded_settle p c s = (if resolved (store s p) then s else settle p c (lock p s))"

text \<open>
  \<open>justified first second n s p c\<close>: settling promise \<open>p\<close> of the race with completion \<open>c\<close>
  is what \<open>race_pstate\<close> prescribes in state \<open>s\<close>.
\<close>

definition justified :: "pid \<Rightarrow> pid \<Rightarrow> pid \<Rightarrow> state \<Rightarrow> pid \<Rightarrow> completion \<Rightarrow> bool" where
  "justified f1 f2 n s p c \<longleftrightarrow>
     (\<exists>i<2. p = n + 1 + i \<and>
        (\<exists>c0. pstate (store s ([f1, f2] ! i)) = settled_as c0 \<and> c = index_result i c0)) \<or>
     (p = n + 3 \<and> (\<exists>i<2. pstate (store s (n + 1 + i)) = settled_as c)) \<or>
     (p = n \<and> (\<exists>c0. pstate (store s (n + 3)) = settled_as c0 \<and> c = race_result f1 f2 c0))"

text \<open>
  Whatever else happens in the program, before and after the call, is a sequence of events:
  a turn of the job queue, a timer firing, a call of any function with any argument (this
  is how the operations supplied by the caller settle), the creation of a promise, a
  \<^verbatim>\<open>then\<close> or an \<^verbatim>\<open>await\<close> on any promise, a \<^verbatim>\<open>setTimeout\<close>.  Calls of the utilities
  themselves are sequences of these, and so is an \<^verbatim>\<open>await\<close> on an instance of a subclass (a
  new promise, a call of its resolving function, an \<^verbatim>\<open>await\<close> on it).
\<close>

datatype event =
    Tick
  | Fire nat
  | Call callback val
  | New
  | Then pid "callback option" "callback option"
  | Await pid callback callback
  | SetTimeout callback int

fun apply_event :: "event \<Rightarrow> state \<Rightarrow> state" where
  "apply_event Tick s = tick s"
| "apply_event (Fire i) s = fire i s"
| "apply_event (Call cb v) s = snd (run_callback cb v s)"
| "apply_event New s = snd (new_promise s)"
| "apply_event (Then p f r) s = snd (then_call p f r s)"
| "apply_event (Await p f r) s = await (Builtin, p) f r s"
| "apply_event (SetTimeout cb ms) s = set_timeout cb ms s"

fun run_events :: "event list \<Rightarrow> state \<Rightarrow> state" where
  "run_events [] s = s"
| "run_events (e # es) s = run_events es (apply_event e s)"

fun event_targets :: "event \<Rightarrow> pid set" where
  "event_targets Tick = {}"
| "event_targets (Fire i) = {}"
| "event_targets (Call cb v) = cb_targets cb"
| "event_targets New = {}"
| "event_targets (Then p f r) = handler_targets f \<union> handler_targets r"
| "event_targets (Await p f r) = cb_targets f \<union> cb_targets r"
| "event_targets (SetTimeout cb ms) = cb_targets cb"

text \<open>
  \<open>outside P es\<close>: no event of \<open>es\<close> passes or calls a function that settles a promise in
  \<open>P\<close>.  The events are otherwise arbitrary; in particular they may register reactions on
  the promises in \<open>P\<close> and settle every other promise in any order.
\<close>

definition outside :: "pid set \<Rightarrow> event list \<Rightarrow> bool" where
  "outside P es \<longleftrightarrow> (\<forall>e\<in>set es. event_targets e \<inter> P = {})"

text \<open>
  In a well-formed state the reactions, jobs and timers settle allocated promises only:
  there is no function for a promise that does not exist yet.
\<close>

definition well_formed :: "state \<Rightarrow> bool" where
  "well_formed s \<longleftrightarrow>
     (\<forall>q rc. rc \<in> set (reactions (store s q)) \<longrightarrow> (\<forall>p\<in>reaction_targets rc. p < next_id s)) \<and>
     (\<forall>j\<in>set (queue s). \<forall>p\<in>job_targets j. p < next_id s) \<and>
     (\<forall>t\<in>set (timers s). \<forall>p\<in>cb_targets (snd t). p < next_id s)"

text \<open>
  A sequence of events is admissible from a state when each event passes or calls only
  functions for promises that are allocated when it happens.
\<close>

fun admissible :: "event list \<Rightarrow> state \<Rightarrow> bool" where
  "admissible [] s = True"
| "admissible (e # es) s \<longleftrightarrow>
     (\<forall>p\<in>event_targets e. p < next_id s) \<and> admissible es (apply_event e s)"

text \<open>
  The state after the call \<^verbatim>\<open>properRace(first, second)\<close> with two instances of \<^verbatim>\<open>Promise\<close>
  itself, written without pairs.
\<close>

definition race_setup :: "pid \<Rightarrow> pid \<Rightarrow> state \<Rightarrow> state" where
  "race_setup f1 f2 s =
     (let n = next_id s;
          s1 = snd (new_promise s);
          s2 = perform_then f1 (Some (IndexOf 0)) None (Some (n + 1)) (snd (new_promise s1));
          s3 = perform_then f2 (Some (IndexOf 1)) None (Some (n + 2)) (snd (new_promise s2));
          s4 = snd (new_promise s3);
          s5 = perform_then (n + 1) (Some (ResolveFn (n + 3))) (Some (RejectFn (n + 3))) (Some (n + 4)) (snd (new_promise s4));
          s6 = perform_then (n + 2) (Some (ResolveFn (n + 3))) (Some (RejectFn (n + 3))) (Some (n + 5)) (snd (new_promise s5))
      in perform_then (n + 3) (Some (RaceResume [f1, f2] n)) (Some (RaceThrow n)) None s6)"

fun settled_jobs :: "pstate \<Rightarrow> reaction \<Rightarrow> job list" where
  "settled_jobs Pending rc = []"
| "settled_jobs (Fulfilled v) rc = [reaction_job (Normal v) rc]"
| "settled_jobs (Rejected e) rc = [reaction_job (Throw e) rc]"

fun pending_reactions :: "pstate \<Rightarrow> reaction \<Rightarrow> reaction list" where
  "pending_reactions Pending rc = [rc]"
| "pending_reactions _ rc = []"

section \<open>Outcomes\<close>



definition outcome :: "pid \<Rightarrow> val" where
  "outcome p = Obj [(''promise'', PromiseRef p)]"

section \<open>The phases of a race\<close>

text \<open>
  \<open>heads Q j k s\<close>: job \<open>j\<close> is at position \<open>k\<close> of the queue and no job before it settles
  a promise in \<open>Q\<close>.
\<close>

definition heads :: "pid set \<Rightarrow> job \<Rightarrow> nat \<Rightarrow> state \<Rightarrow> bool" where
  "heads Q j k s \<longleftrightarrow>
     (\<exists>pre post. queue s = pre @ j # post \<and> length pre = k \<and>
        (\<forall>j'\<in>set pre. job_targets j' \<inter> Q = {}))"

text \<open>
  The phases between the call and the result.  \<open>waiting\<close>: nothing of the race has run; the
  reaction of each input is still registered on it, or the input has settled and the job is
  in the queue.  \<open>leading a k\<close>: the race is waiting and the job of input \<open>a\<close> is at position
  \<open>k\<close>, before every other job of the race.  \<open>observed a k\<close>: the index promise of \<open>a\<close> has
  settled and its job for \<^verbatim>\<open>Promise.race\<close> is at position \<open>k\<close>, before every other job that
  settles the promise of \<^verbatim>\<open>Promise.race\<close>.  \<open>won a\<close>: the promise of \<^verbatim>\<open>Promise.race\<close> has
  settled as the index promise of \<open>a\<close>; \<open>raced k\<close>: the continuation of the async function
  is at position \<open>k\<close>.  \<open>decided a\<close>: the returned promise has settled with the result for
  \<open>a\<close>.
\<close>

definition waiting :: "pid \<Rightarrow> pid \<Rightarrow> pid \<Rightarrow> state \<Rightarrow> bool" where
  "waiting f1 f2 n s \<longleftrightarrow>
     (\<forall>p\<in>prot n. pstate (store s p) = Pending) \<and>
     (\<forall>i<2. race_reaction n i \<in> set (reactions (store s (n + 1 + i)))) \<and>
     await_reaction f1 f2 n \<in> set (reactions (store s (n + 3))) \<and>
     (\<forall>i<2. (pstate (store s ([f1, f2] ! i)) = Pending \<and>
             index_reaction n i \<in> set (reactions (store s ([f1, f2] ! i)))) \<or>
            (\<exists>c. reaction_job c (index_reaction n i) \<in> set (queue s)))"

definition leading :: "pid \<Rightarrow> pid \<Rightarrow> pid \<Rightarrow> nat \<Rightarrow> nat \<Rightarrow> state \<Rightarrow> bool" where
  "leading f1 f2 n a k s \<longleftrightarrow>
     waiting f1 f2 n s \<and> (\<exists>c. heads (prot n) (reaction_job c (index_reaction n a)) k s)"

definition observed :: "pid \<Rightarrow> pid \<Rightarrow> pid \<Rightarrow> nat \<Rightarrow> nat \<Rightarrow> state \<Rightarrow> bool" where
  "observed f1 f2 n a k s \<longleftrightarrow>
     pstate (store s (n + 3)) = Pending \<and> pstate (store s n) = Pending \<and>
     await_reaction f1 f2 n \<in> set (reactions (store s (n + 3))) \<and>
     (\<exists>c. heads {n, n + 3} (reaction_job c (race_reaction n a)) k s)"

definition raced :: "pid \<Rightarrow> pid \<Rightarrow> pid \<Rightarrow> nat \<Rightarrow> state \<Rightarrow> bool" where
  "raced f1 f2 n k s \<longleftrightarrow>
     pstate (store s n) = Pending \<and>
     (\<exists>c. heads {n} (reaction_job c (await_reaction f1 f2 n)) k s)"

definition won :: "pid \<Rightarrow> pid \<Rightarrow> pid \<Rightarrow> nat \<Rightarrow> state \<Rightarrow> bool" where
  "won f1 f2 n a s \<longleftrightarrow>
     (\<exists>c0. pstate (store s ([f1, f2] ! a)) = settled_as c0 \<and>
           pstate (store s (n + 1 + a)) = settled_as (index_result a c0) \<and>
           pstate (store s (n + 3)) = settled_as (index_result a c0))"

definition decided :: "pid \<Rightarrow> pid \<Rightarrow> pid \<Rightarrow> nat \<Rightarrow> state \<Rightarrow> bool" where
  "decided f1 f2 n a s \<longleftrightarrow>
     (\<exists>c0. pstate (store s ([f1, f2] ! a)) = settled_as c0 \<and>
           pstate (store s (n + 1 + a)) = settled_as (index_result a c0) \<and>
           pstate (store s (n + 3)) = settled_as (index_result a c0) \<and>
           pstate (store s n) = settled_as (race_result f1 f2 (index_result a c0)))"

definition stage :: "pid \<Rightarrow> pid \<Rightarrow> pid \<Rightarrow> nat \<Rightarrow> state \<Rightarrow> bool" where
  "stage f1 f2 n a s \<longleftrightarrow>
     (\<exists>k. leading f1 f2 n a k s) \<or> (\<exists>k. observed f1 f2 n a k s) \<or>
     (won f1 f2 n a s \<and> (\<exists>k. raced f1 f2 n k s)) \<or> decided f1 f2 n a s"

definition racing :: "pid \<Rightarrow> pid \<Rightarrow> pid \<Rightarrow> state \<Rightarrow> bool" where
  "racing f1 f2 n s \<longleftrightarrow> waiting f1 f2 n s \<or> (\<exists>a<2. stage f1 f2 n a s)"

text \<open>The promises of a race by name.\<close>

definition race_promise :: "pid \<Rightarrow> pid" where
  "race_promise res = res + 3"

definition index_promise :: "pid \<Rightarrow> nat \<Rightarrow> pid" where
  "index_promise res i = res + 1 + i"

section \<open>The invariant of a delayed result\<close>

text \<open>
  A call \<^verbatim>\<open>delayWithResult(result, milliseconds)\<close> in a state with \<open>next_id s = n\<close> allocates the
  promise \<open>n\<close> of the async function and the promise \<open>n + 1\<close> of \<^verbatim>\<open>delay\<close>, sets one timer
  with the resolving function of \<open>n + 1\<close>, and registers \<open>delay_reaction result n\<close> on
  \<open>n + 1\<close>.  The invariant \<open>delay_inv result n\<close> is that of a race, for these two promises.
\<close>

definition delay_reaction :: "val \<Rightarrow> pid \<Rightarrow> reaction" where
  "delay_reaction r n = Reaction (Some (DelayResume r n)) (Some (DelayThrow n)) None"

definition dprot :: "pid \<Rightarrow> pid set" where
  "dprot n = {n, n + 1}"

definition delay_store :: "val \<Rightarrow> pid \<Rightarrow> state \<Rightarrow> bool" where
  "delay_store r n s \<longleftrightarrow>
     (\<forall>q rc. rc \<in> set (reactions (store s q)) \<longrightarrow> reaction_targets rc \<inter> dprot n \<noteq> {} \<longrightarrow>
        rc = delay_reaction r n \<and> q = n + 1)"

definition delay_queue :: "val \<Rightarrow> pid \<Rightarrow> state \<Rightarrow> bool" where
  "delay_queue r n s \<longleftrightarrow>
     (\<forall>j\<in>set (queue s). job_targets j \<inter> dprot n \<noteq> {} \<longrightarrow>
        (\<exists>c. j = reaction_job c (delay_reaction r n) \<and> pstate (store s (n + 1)) = settled_as c))"

definition delay_timers :: "pid \<Rightarrow> state \<Rightarrow> bool" where
  "delay_timers n s \<longleftrightarrow>
     (\<forall>t\<in>set (timers s). cb_targets (snd t) \<inter> dprot n \<noteq> {} \<longrightarrow> snd t = ResolveFn (n + 1))"

definition delay_lock :: "pid \<Rightarrow> state \<Rightarrow> bool" where
  "delay_lock n s \<longleftrightarrow> (\<forall>p\<in>dprot n. pstate (store s p) = Pending \<longrightarrow> \<not> resolved (store s p))"

definition delay_pstate :: "val \<Rightarrow> pid \<Rightarrow> state \<Rightarrow> bool" where
  "delay_pstate r n s \<longleftrightarrow>
     (pstate (store s (n + 1)) = Pending \<or> pstate (store s (n + 1)) = Fulfilled Undefined) \<and>
     (pstate (store s n) = Pending \<or> pstate (store s n) = Fulfilled r)"

definition delay_inv :: "val \<Rightarrow> pid \<Rightarrow> state \<Rightarrow> bool" where
  "delay_inv r n s \<longleftrightarrow>
     n + 1 < next_id s \<and> delay_store r n s \<and> delay_queue r n s \<and> delay_timers n s \<and> delay_lock n s \<and>
     delay_pstate r n s"

text \<open>
  The state after the call, written without pairs, and the phases of the call: the timer is
  set, or the promise of \<^verbatim>\<open>delay\<close> has settled and the continuation is in the queue, or the
  returned promise is fulfilled with the result.
\<close>

definition delay_setup :: "val \<Rightarrow> int \<Rightarrow> state \<Rightarrow> state" where
  "delay_setup r ms s =
     perform_then (next_id s + 1) (Some (DelayResume r (next_id s))) (Some (DelayThrow (next_id s))) None
       (set_timeout (ResolveFn (next_id s + 1)) ms (snd (new_promise (snd (new_promise s)))))"

definition delay_stage :: "nat \<Rightarrow> val \<Rightarrow> pid \<Rightarrow> state \<Rightarrow> bool" where
  "delay_stage due r n s \<longleftrightarrow>
     (pstate (store s (n + 1)) = Pending \<and>
      delay_reaction r n \<in> set (reactions (store s (n + 1))) \<and>
      pstate (store s n) = Pending \<and> (due, ResolveFn (n + 1)) \<in> set (timers s)) \<or>
     (pstate (store s (n + 1)) \<noteq> Pending \<and> pstate (store s n) = Pending \<and>
      (\<exists>c. reaction_job c (delay_reaction r n) \<in> set (queue s))) \<or>
     pstate (store s n) = Fulfilled r"

section \<open>Random choice\<close>

text \<open>
  \<^verbatim>\<open>oneOf\<close> computes \<^verbatim>\<open>Math.floor(Math.random() * options.length)\<close> in double precision.  A
  non-negative double is a natural multiple of \<open>2 ^ -1074\<close>, the smallest positive double,
  and is written as that multiple; it has at most 53 significant bits.  \<open>bits n\<close> is the
  length of \<open>n\<close> in binary.  The product of two doubles is the exact product rounded to 53
  significant bits, to nearest and on a tie to the even significand (products beyond the
  largest double do not arise below).
\<close>

fun bits :: "nat \<Rightarrow> nat" where
  "bits n = (if n = 0 then 0 else Suc (bits (n div 2)))"

definition prec :: nat where
  "prec = 53"

definition emin :: nat where
  "emin = 1074"

definition round_double :: "nat \<Rightarrow> nat" where
  "round_double z =
     (if z < 2 ^ prec then z
      else
        (let k = bits z - prec; q = z div 2 ^ k; rem = z mod 2 ^ k; half = 2 ^ (k - 1)
         in if rem < half then q * 2 ^ k
            else if half < rem then (q + 1) * 2 ^ k
            else if even q then q * 2 ^ k
            else (q + 1) * 2 ^ k))"

definition mul_double :: "nat \<Rightarrow> nat \<Rightarrow> nat" where
  "mul_double z n = round_double (z * n)"

text \<open>\<^verbatim>\<open>Math.floor\<close> of a double, as an integer.\<close>

definition floor_double :: "nat \<Rightarrow> nat" where
  "floor_double z = z div 2 ^ emin"

text \<open>
  \<^verbatim>\<open>Math.random()\<close> returns a double in \<open>[0, 1)\<close>: a significand of at most 53 bits, shifted,
  below \<open>2 ^ 1074\<close> multiples.
\<close>

definition random_ok :: "nat \<times> nat \<Rightarrow> bool" where
  "random_ok rnd \<longleftrightarrow> fst rnd < 2 ^ prec \<and> fst rnd * 2 ^ snd rnd < 2 ^ emin"

text \<open>
  \<^verbatim>\<open>oneOf\<close> (lines 5 to 8 of \<^verbatim>\<open>oneOf.ts\<close>), with the random number drawn as a parameter and
  the number of options as a double (exact, being below \<open>2 ^ 53\<close>).  Reading an array out of
  range gives \<^verbatim>\<open>undefined\<close>, here \<open>None\<close>.
\<close>

definition oneOf :: "nat \<times> nat \<Rightarrow> 'a list \<Rightarrow> 'a option" where
  "oneOf rnd options =
     (let index = floor_double (mul_double (fst rnd * 2 ^ snd rnd) (length options))
      in if index < length options then Some (options ! index) else None)"

section \<open>Example runs\<close>

text \<open>
  The states and events of the examples below: two pending operations \<open>0\<close> and \<open>1\<close>
  settled by the caller in different orders, a delayed result whose timer fires, and the
  objects \<^verbatim>\<open>{ then(f) { f(7) } }\<close> and \<^verbatim>\<open>{ get then() { throw "no" } }\<close>.
\<close>

definition two_pending :: state where
  "two_pending = snd (new_promise (snd (new_promise empty_state)))"

definition fulfil_first :: "event list" where
  "fulfil_first = [Call (ResolveFn 0) (Str ''slow''), Tick, Tick, Tick]"

definition reject_first :: "event list" where
  "reject_first = [Call (RejectFn 0) (Str ''boom''), Tick, Tick, Tick]"

definition slow_first :: "event list" where
  "slow_first = [Call (ResolveFn 0) (Str ''slow'')]"

definition then_other :: "event list" where
  "then_other = [Call (ResolveFn 1) (Num 42)]"

definition boom_first :: "event list" where
  "boom_first = [Call (RejectFn 0) (Str ''boom'')]"

definition then_true :: "event list" where
  "then_true = [Call (ResolveFn 1) (Bool True)]"

definition boom_then_true :: "event list" where
  "boom_then_true =
     [Call (RejectFn 0) (Str ''boom''), Tick, Tick, Tick,
      Call (ResolveFn 1) (Bool True), Tick, Tick, Tick]"

definition both_settled :: state where
  "both_settled =
     run_events [Call (ResolveFn 1) (Num 42), Call (ResolveFn 0) (Str ''slow'')] two_pending"


definition one_fulfilled :: state where
  "one_fulfilled = run_events [Call (ResolveFn 0) (Num 5)] (snd (new_promise empty_state))"

definition timer_fires :: "event list" where
  "timer_fires = [Fire 0, Tick]"

definition failed_then_fulfilled :: state where
  "failed_then_fulfilled =
     run_events [Call (RejectFn 1) (Str ''boom''), Call (ResolveFn 0) (Str ''slow'')] two_pending"

definition then_seven :: val where
  "then_seven = Obj [(''then'', ThenFn (CallsResolve (Num 7)))]"

definition then_throws :: val where
  "then_throws = Obj [(''then'', ThrowingGetter (Str ''no''))]"

section \<open>Later states\<close>

text \<open>
  Every operation of the machinery leads to a later state in the sense of \<open>step_rel\<close>, for
  every set \<open>Q\<close> of promises that the operation has no function to settle.
\<close>

lemma job_targets_reaction_job: "job_targets (reaction_job c rc) \<subseteq> reaction_targets rc"
  by (cases c) (auto simp: reaction_targets_def)

lemma step_rel_refl: "step_rel Q s s"
  by (auto simp: step_rel_def)

lemma step_rel_trans:
  assumes 1: "step_rel Q s s'" and 2: "step_rel Q s' s''"
  shows "step_rel Q s s''"
proof -
  from 1 obtain new1 where n1: "next_id s \<le> next_id s'" and q1: "queue s' = queue s @ new1"
    and r1: "\<And>q rc. q < next_id s \<Longrightarrow> pstate (store s q) = Pending \<Longrightarrow>
        rc \<in> set (reactions (store s q)) \<Longrightarrow>
        (pstate (store s' q) = Pending \<and> rc \<in> set (reactions (store s' q))) \<or>
        (\<exists>c. pstate (store s' q) = settled_as c \<and> reaction_job c rc \<in> set (queue s'))"
    and p1: "\<And>p. p \<in> Q \<Longrightarrow> pstate (store s' p) = pstate (store s p) \<and>
        resolved (store s' p) = resolved (store s p) \<and>
        set (reactions (store s p)) \<subseteq> set (reactions (store s' p))"
    and m1: "\<And>q. q < next_id s \<Longrightarrow> pstate (store s q) \<noteq> Pending \<Longrightarrow>
        pstate (store s' q) = pstate (store s q)"
    unfolding step_rel_def by blast
  from 2 obtain new2 where n2: "next_id s' \<le> next_id s''" and q2: "queue s'' = queue s' @ new2"
    and r2: "\<And>q rc. q < next_id s' \<Longrightarrow> pstate (store s' q) = Pending \<Longrightarrow>
        rc \<in> set (reactions (store s' q)) \<Longrightarrow>
        (pstate (store s'' q) = Pending \<and> rc \<in> set (reactions (store s'' q))) \<or>
        (\<exists>c. pstate (store s'' q) = settled_as c \<and> reaction_job c rc \<in> set (queue s''))"
    and p2: "\<And>p. p \<in> Q \<Longrightarrow> pstate (store s'' p) = pstate (store s' p) \<and>
        resolved (store s'' p) = resolved (store s' p) \<and>
        set (reactions (store s' p)) \<subseteq> set (reactions (store s'' p))"
    and m2: "\<And>q. q < next_id s' \<Longrightarrow> pstate (store s' q) \<noteq> Pending \<Longrightarrow>
        pstate (store s'' q) = pstate (store s' q)"
    unfolding step_rel_def by blast
  have a: "next_id s \<le> next_id s''" using n1 n2 by simp
  have b: "\<exists>new. queue s'' = queue s @ new" using q1 q2 by simp
  have c: "\<forall>q rc. q < next_id s \<longrightarrow> pstate (store s q) = Pending \<longrightarrow>
        rc \<in> set (reactions (store s q)) \<longrightarrow>
        (pstate (store s'' q) = Pending \<and> rc \<in> set (reactions (store s'' q))) \<or>
        (\<exists>c. pstate (store s'' q) = settled_as c \<and> reaction_job c rc \<in> set (queue s''))"
  proof (intro allI impI)
    fix q rc assume q: "q < next_id s" and pe: "pstate (store s q) = Pending"
      and rc: "rc \<in> set (reactions (store s q))"
    from q n1 have q': "q < next_id s'" by simp
    from r1[OF q pe rc] show "(pstate (store s'' q) = Pending \<and> rc \<in> set (reactions (store s'' q))) \<or>
        (\<exists>c. pstate (store s'' q) = settled_as c \<and> reaction_job c rc \<in> set (queue s''))"
    proof
      assume "pstate (store s' q) = Pending \<and> rc \<in> set (reactions (store s' q))"
      with r2[OF q'] show ?thesis by blast
    next
      assume "\<exists>c. pstate (store s' q) = settled_as c \<and> reaction_job c rc \<in> set (queue s')"
      then obtain c where c: "pstate (store s' q) = settled_as c" "reaction_job c rc \<in> set (queue s')"
        by blast
      from c(1) have "pstate (store s' q) \<noteq> Pending" by (cases c) simp_all
      from m2[OF q' this] c(1) have "pstate (store s'' q) = settled_as c" by simp
      moreover from c(2) q2 have "reaction_job c rc \<in> set (queue s'')" by simp
      ultimately show ?thesis by blast
    qed
  qed
  have d: "\<forall>p\<in>Q. pstate (store s'' p) = pstate (store s p) \<and>
        resolved (store s'' p) = resolved (store s p) \<and>
        set (reactions (store s p)) \<subseteq> set (reactions (store s'' p))"
    using p1 p2 by (metis subset_trans)
  have e: "\<forall>q. q < next_id s \<longrightarrow> pstate (store s q) \<noteq> Pending \<longrightarrow>
        pstate (store s'' q) = pstate (store s q)"
    using m1 m2 n1 by (metis less_le_trans)
  from a b c d e show ?thesis unfolding step_rel_def by blast
qed

lemma settled_as_cases: "st \<noteq> Pending \<Longrightarrow> \<exists>c. st = settled_as c"
  by (cases st) (auto intro: settled_as.simps[symmetric])

lemma step_new_promise: "\<forall>p\<in>Q. p < next_id s \<Longrightarrow> step_rel Q s (snd (new_promise s))"
  by (auto simp: step_rel_def new_promise_def)

lemma step_lock: "p \<notin> Q \<Longrightarrow> step_rel Q s (lock p s)"
  by (auto simp: step_rel_def lock_def)

lemma step_enqueue: "step_rel Q s (enqueue js s)"
  by (auto simp: step_rel_def enqueue_def)

lemma step_settle: "p \<notin> Q \<Longrightarrow> step_rel Q s (settle p c s)"
  by (auto simp: step_rel_def settle_def enqueue_def)

lemma step_perform_then: "step_rel Q s (perform_then p f r cap s)"
  by (auto simp: step_rel_def perform_then_def enqueue_def split: pstate.splits)

lemma step_timers: "step_rel Q s (s\<lparr>timers := ts, now := k\<rparr>)"
  by (auto simp: step_rel_def)

lemma step_set_timeout: "step_rel Q s (set_timeout cb ms s)"
  by (auto simp: step_rel_def set_timeout_def)

lemma step_rel_next_id: "step_rel Q s s' \<Longrightarrow> \<forall>p\<in>Q. p < next_id s \<Longrightarrow> \<forall>p\<in>Q. p < next_id s'"
  by (auto simp: step_rel_def)

lemma step_resolve_promise: "p \<notin> Q \<Longrightarrow> step_rel Q s (resolve_promise p v s)"
  by (cases v)
    (simp_all add: resolve_promise_def step_settle step_enqueue del: then_of.simps
      split: then_lookup.splits)

lemma step_resolve_fn: "p \<notin> Q \<Longrightarrow> step_rel Q s (resolve_fn p v s)"
  unfolding resolve_fn_def
  by (auto intro: step_rel_refl step_rel_trans[OF step_lock step_resolve_promise])

lemma step_reject_fn: "p \<notin> Q \<Longrightarrow> step_rel Q s (reject_fn p v s)"
  unfolding reject_fn_def
  by (auto intro: step_rel_refl step_rel_trans[OF step_lock step_settle])

lemma step_run_callback: "cb_targets cb \<inter> Q = {} \<Longrightarrow> step_rel Q s (snd (run_callback cb v s))"
  by (cases cb)
     (simp_all add: step_rel_refl step_resolve_fn step_reject_fn step_resolve_promise step_settle)

lemma step_run_handler: "handler_targets h \<inter> Q = {} \<Longrightarrow> step_rel Q s (snd (run_handler h c s))"
  by (cases h) (simp_all add: step_rel_refl step_run_callback)

lemma step_resolve_capability: "set_option cap \<inter> Q = {} \<Longrightarrow> step_rel Q s (resolve_capability cap c s)"
  by (cases cap; cases c) (simp_all add: step_rel_refl step_resolve_fn step_reject_fn)

lemma step_then_call: "\<forall>p\<in>Q. p < next_id s \<Longrightarrow> step_rel Q s (snd (then_call p f r s))"
  unfolding then_call_def
  by (simp add: split_def Let_def) (rule step_rel_trans[OF step_new_promise step_perform_then])

lemma step_run_then: "p \<notin> Q \<Longrightarrow> step_rel Q s (run_then b p s)"
  by (cases b) (simp_all add: step_resolve_promise step_settle step_rel_refl)

lemma step_run_job:
  "job_targets j \<inter> Q = {} \<Longrightarrow> \<forall>p\<in>Q. p < next_id s \<Longrightarrow> step_rel Q s (run_job j s)"
proof (cases j)
  case (ReactionJob h cap c)
  assume "job_targets j \<inter> Q = {}"
  with ReactionJob have t: "handler_targets h \<inter> Q = {}" "set_option cap \<inter> Q = {}" by auto
  show ?thesis unfolding ReactionJob
    by (simp add: split_def Let_def)
       (rule step_rel_trans[OF step_run_handler[OF t(1)] step_resolve_capability[OF t(2)]])
next
  case (ThenableJob p q)
  assume "\<forall>p\<in>Q. p < next_id s"
  then show ?thesis unfolding ThenableJob by (simp add: step_then_call)
next
  case (ObjectThenJob p b)
  assume "job_targets j \<inter> Q = {}"
  with ObjectThenJob have "p \<notin> Q" by simp
  then show ?thesis unfolding ObjectThenJob by (simp add: step_run_then)
qed

lemma step_fire: "step_rel Q s (fire i s) \<or> (\<exists>t\<in>set (timers s). cb_targets (snd t) \<inter> Q \<noteq> {})"
proof (cases "i < length (timers s)")
  case False
  then show ?thesis by (simp add: fire_def step_rel_refl)
next
  case True
  obtain due cb where t: "timers s ! i = (due, cb)" by (cases "timers s ! i")
  with True have m: "(due, cb) \<in> set (timers s)" by (metis nth_mem)
  show ?thesis
  proof (cases "cb_targets cb \<inter> Q = {}")
    case False
    with m show ?thesis by force
  next
    case e: True
    have "step_rel Q s (snd (run_callback cb Undefined
            (s\<lparr>timers := take i (timers s) @ drop (Suc i) (timers s), now := max (now s) due\<rparr>)))"
      by (rule step_rel_trans[OF step_timers step_run_callback[OF e]])
    with True t show ?thesis by (simp add: fire_def)
  qed
qed

section \<open>The race invariant is preserved\<close>

lemma settled_as_not_Pending [simp]: "settled_as c \<noteq> Pending" "Pending \<noteq> settled_as c"
  by (cases c; simp)+

lemma settled_as_inj [simp]: "settled_as c = settled_as c' \<longleftrightarrow> c = c'"
  by (cases c; cases c'; simp)

lemma allowed_source_not_prot:
  "allowed f1 f2 n q rc \<Longrightarrow> f1 < n \<Longrightarrow> f2 < n \<Longrightarrow> q \<notin> prot n \<Longrightarrow> \<exists>i<2. rc = index_reaction n i \<and> q = [f1, f2] ! i"
  by (auto simp: allowed_def prot_def)

lemma allowed_source_lt: "allowed f1 f2 n q rc \<Longrightarrow> f1 < n \<Longrightarrow> f2 < n \<Longrightarrow> q < n + 4"
  unfolding allowed_def by (auto simp: less_2_cases_iff)

text \<open>The components of the state after each primitive operation.\<close>

lemma new_promise_simps [simp]:
  "next_id (snd (new_promise s)) = Suc (next_id s)"
  "store (snd (new_promise s)) q = (if q = next_id s then fresh_promise else store s q)"
  "queue (snd (new_promise s)) = queue s"
  "timers (snd (new_promise s)) = timers s"
  "now (snd (new_promise s)) = now s"
  "fst (new_promise s) = next_id s"
  by (simp_all add: new_promise_def)

lemma fresh_promise_simps [simp]:
  "pstate fresh_promise = Pending" "reactions fresh_promise = []" "resolved fresh_promise = False"
  by (simp_all add: fresh_promise_def)

lemma lock_simps [simp]:
  "next_id (lock p s) = next_id s"
  "queue (lock p s) = queue s"
  "timers (lock p s) = timers s"
  "now (lock p s) = now s"
  "pstate (store (lock p s) q) = pstate (store s q)"
  "reactions (store (lock p s) q) = reactions (store s q)"
  "resolved (store (lock p s) q) = (q = p \<or> resolved (store s q))"
  by (simp_all add: lock_def)

lemma enqueue_simps [simp]:
  "next_id (enqueue js s) = next_id s"
  "queue (enqueue js s) = queue s @ js"
  "timers (enqueue js s) = timers s"
  "now (enqueue js s) = now s"
  "store (enqueue js s) = store s"
  by (simp_all add: enqueue_def)

lemma settle_simps [simp]:
  "next_id (settle p c s) = next_id s"
  "timers (settle p c s) = timers s"
  "now (settle p c s) = now s"
  "resolved (store (settle p c s) q) = resolved (store s q)"
  "queue (settle p c s) =
     (if pstate (store s p) = Pending then queue s @ map (reaction_job c) (reactions (store s p))
      else queue s)"
  "pstate (store (settle p c s) q) =
     (if q = p \<and> pstate (store s p) = Pending then settled_as c else pstate (store s q))"
  "reactions (store (settle p c s) q) =
     (if q = p \<and> pstate (store s p) = Pending then [] else reactions (store s q))"
  by (simp_all add: settle_def)

lemma perform_then_simps [simp]:
  "next_id (perform_then p f r cap s) = next_id s"
  "timers (perform_then p f r cap s) = timers s"
  "now (perform_then p f r cap s) = now s"
  "resolved (store (perform_then p f r cap s) q) = resolved (store s q)"
  "pstate (store (perform_then p f r cap s) q) = pstate (store s q)"
  "queue (perform_then p f r cap s) =
     (case pstate (store s p) of Pending \<Rightarrow> queue s
      | Fulfilled v \<Rightarrow> queue s @ [ReactionJob f cap (Normal v)]
      | Rejected e \<Rightarrow> queue s @ [ReactionJob r cap (Throw e)])"
  "reactions (store (perform_then p f r cap s) q) =
     (if q = p \<and> pstate (store s p) = Pending then reactions (store s p) @ [Reaction f r cap]
      else reactions (store s q))"
  by (simp_all add: perform_then_def split: pstate.splits)

lemma await_Builtin:
  "await (Builtin, p) resume throw s = perform_then p (Some resume) (Some throw) None s"
  by (simp add: await_def)

lemma allowed_job_keep:
  assumes "allowed_job f1 f2 n s j" "f1 < n" "f2 < n"
    and keep: "\<And>q. q < n + 4 \<Longrightarrow> pstate (store s q) \<noteq> Pending \<Longrightarrow> pstate (store s' q) = pstate (store s q)"
  shows "allowed_job f1 f2 n s' j"
proof -
  from assms(1) obtain q rc c where *: "allowed f1 f2 n q rc" "j = reaction_job c rc"
      "pstate (store s q) = settled_as c"
    unfolding allowed_job_def by blast
  from *(1) assms(2,3) have "q < n + 4" by (rule allowed_source_lt)
  with keep[of q] *(3) have "pstate (store s' q) = settled_as c" by simp
  with *(1,2) show ?thesis unfolding allowed_job_def by blast
qed

lemma race_inv_pstate_keep:
  assumes g: "race_pstate f1 f2 n s" and b: "f1 < n" "f2 < n"
    and pr: "\<And>p. p \<in> prot n \<Longrightarrow> pstate (store s' p) = pstate (store s p)"
    and keep: "\<And>q. q < n + 4 \<Longrightarrow> pstate (store s q) \<noteq> Pending \<Longrightarrow> pstate (store s' q) = pstate (store s q)"
  shows "race_pstate f1 f2 n s'"
proof -
  have p: "pstate (store s' n) = pstate (store s n)" "pstate (store s' (n + 3)) = pstate (store s (n + 3))"
    "\<And>i. i < 2 \<Longrightarrow> pstate (store s' (n + 1 + i)) = pstate (store s (n + 1 + i))"
    by (auto intro!: pr simp: prot_def less_2_cases_iff)
  have x: "\<And>i c. i < 2 \<Longrightarrow> pstate (store s ([f1, f2] ! i)) = settled_as c \<Longrightarrow>
      pstate (store s' ([f1, f2] ! i)) = settled_as c"
  proof -
    fix i :: nat and c assume i: "i < 2" and c: "pstate (store s ([f1, f2] ! i)) = settled_as c"
    from i b have "[f1, f2] ! i < n + 4" by (auto simp: less_2_cases_iff)
    from keep[OF this] c show "pstate (store s' ([f1, f2] ! i)) = settled_as c" by simp
  qed
  from g have g1: "\<And>i. i < 2 \<Longrightarrow> pstate (store s (n + 1 + i)) = Pending \<or>
        (\<exists>c. pstate (store s ([f1, f2] ! i)) = settled_as c \<and>
             pstate (store s (n + 1 + i)) = settled_as (index_result i c))"
    and g2: "pstate (store s (n + 3)) = Pending \<or>
        (\<exists>i<2. pstate (store s (n + 1 + i)) \<noteq> Pending \<and>
               pstate (store s (n + 3)) = pstate (store s (n + 1 + i)))"
    and g3: "pstate (store s n) = Pending \<or>
        (\<exists>c. pstate (store s (n + 3)) = settled_as c \<and>
             pstate (store s n) = settled_as (race_result f1 f2 c))"
    unfolding race_pstate_def by blast+
  have h1: "\<forall>i<2. pstate (store s' (n + 1 + i)) = Pending \<or>
        (\<exists>c. pstate (store s' ([f1, f2] ! i)) = settled_as c \<and>
             pstate (store s' (n + 1 + i)) = settled_as (index_result i c))"
  proof (intro allI impI)
    fix i :: nat assume i: "i < 2"
    from g1[OF i] show "pstate (store s' (n + 1 + i)) = Pending \<or>
        (\<exists>c. pstate (store s' ([f1, f2] ! i)) = settled_as c \<and>
             pstate (store s' (n + 1 + i)) = settled_as (index_result i c))"
      using p(3)[OF i] x[OF i] by metis
  qed
  have h2: "pstate (store s' (n + 3)) = Pending \<or>
        (\<exists>i<2. pstate (store s' (n + 1 + i)) \<noteq> Pending \<and>
               pstate (store s' (n + 3)) = pstate (store s' (n + 1 + i)))"
    using g2 p(2) p(3) by metis
  have h3: "pstate (store s' n) = Pending \<or>
        (\<exists>c. pstate (store s' (n + 3)) = settled_as c \<and>
             pstate (store s' n) = settled_as (race_result f1 f2 c))"
    using g3 p(1) p(2) by metis
  from h1 h2 h3 show ?thesis unfolding race_pstate_def by blast
qed

text \<open>
  An operation that changes no promise of the race, adds no reaction, job or timer that can
  settle one, and settles no promise with a job of the race waiting on it, preserves the
  invariant.
\<close>

lemma race_inv_frame:
  assumes g: "race_inv f1 f2 n s"
    and nid: "next_id s \<le> next_id s'"
    and st: "\<And>q rc. rc \<in> set (reactions (store s' q)) \<Longrightarrow>
               rc \<in> set (reactions (store s q)) \<or> reaction_targets rc \<inter> prot n = {}"
    and qu: "\<And>j. j \<in> set (queue s') \<Longrightarrow> j \<in> set (queue s) \<or> job_targets j \<inter> prot n = {} \<or>
               (\<exists>q rc c. rc \<in> set (reactions (store s q)) \<and> j = reaction_job c rc \<and>
                   pstate (store s' q) = settled_as c)"
    and ti: "\<And>t. t \<in> set (timers s') \<Longrightarrow> t \<in> set (timers s) \<or> cb_targets (snd t) \<inter> prot n = {}"
    and pr: "\<And>p. p \<in> prot n \<Longrightarrow> pstate (store s' p) = pstate (store s p) \<and>
               resolved (store s' p) = resolved (store s p)"
    and keep: "\<And>q. q < n + 4 \<Longrightarrow> pstate (store s q) \<noteq> Pending \<Longrightarrow>
               pstate (store s' q) = pstate (store s q)"
  shows "race_inv f1 f2 n s'"
proof -
  from g have b: "f1 < n" "f2 < n" "n + 3 < next_id s" and gs: "race_store f1 f2 n s"
    and gq: "race_queue f1 f2 n s" and gt: "race_timers n s" and gl: "race_lock n s"
    and gp: "race_pstate f1 f2 n s"
    by (simp_all add: race_inv_def)
  have 1: "race_store f1 f2 n s'"
    unfolding race_store_def using st gs[unfolded race_store_def] by blast
  have 2: "race_queue f1 f2 n s'"
    unfolding race_queue_def
  proof (intro ballI impI)
    fix j assume j: "j \<in> set (queue s')" and t: "job_targets j \<inter> prot n \<noteq> {}"
    from qu[OF j] t consider (old) "j \<in> set (queue s)"
      | (new) q rc c where "rc \<in> set (reactions (store s q))" "j = reaction_job c rc"
          "pstate (store s' q) = settled_as c"
      by blast
    then show "allowed_job f1 f2 n s' j"
    proof cases
      case old
      with gq t have "allowed_job f1 f2 n s j" unfolding race_queue_def by blast
      then show ?thesis using b(1,2) keep by (rule allowed_job_keep)
    next
      case new
      from t new(2) job_targets_reaction_job[of c rc] have "reaction_targets rc \<inter> prot n \<noteq> {}"
        by blast
      with gs new(1) have "allowed f1 f2 n q rc" unfolding race_store_def by blast
      with new(2,3) show ?thesis unfolding allowed_job_def by blast
    qed
  qed
  have 3: "race_timers n s'"
    unfolding race_timers_def using ti gt[unfolded race_timers_def] by blast
  have 4: "race_lock n s'"
    unfolding race_lock_def using pr gl[unfolded race_lock_def] by simp
  have 5: "race_pstate f1 f2 n s'"
    by (rule race_inv_pstate_keep[OF gp b(1,2)]) (simp_all add: pr keep)
  from b nid 1 2 3 4 5 show ?thesis by (simp add: race_inv_def)
qed

text \<open>The primitive operations on promises that do not belong to the race.\<close>

lemma race_inv_new_promise: "race_inv f1 f2 n s \<Longrightarrow> race_inv f1 f2 n (snd (new_promise s))"
  apply (frule race_inv_frame[where s' = "snd (new_promise s)"])
  apply (auto simp: race_inv_def prot_def split: if_splits)
  done

lemma race_inv_lock: "race_inv f1 f2 n s \<Longrightarrow> p \<notin> prot n \<Longrightarrow> race_inv f1 f2 n (lock p s)"
  apply (erule race_inv_frame)
  apply auto
  done

lemma race_inv_lock_settled: "race_inv f1 f2 n s \<Longrightarrow> pstate (store s p) \<noteq> Pending \<Longrightarrow> race_inv f1 f2 n (lock p s)"
  unfolding race_inv_def race_store_def race_queue_def race_timers_def race_lock_def race_pstate_def allowed_job_def
  by auto

lemma race_inv_enqueue: "race_inv f1 f2 n s \<Longrightarrow> \<forall>j\<in>set js. job_targets j \<inter> prot n = {} \<Longrightarrow> race_inv f1 f2 n (enqueue js s)"
  apply (erule race_inv_frame)
  apply auto
  done

lemma race_inv_settle: "race_inv f1 f2 n s \<Longrightarrow> p \<notin> prot n \<Longrightarrow> race_inv f1 f2 n (settle p c s)"
  apply (erule race_inv_frame)
       apply simp
      apply (simp split: if_splits)
     apply (simp split: if_splits)
     apply blast
    apply simp
   apply auto
  done

lemma race_inv_perform_then:
  "race_inv f1 f2 n s \<Longrightarrow> reaction_targets (Reaction f r cap) \<inter> prot n = {} \<Longrightarrow>
   race_inv f1 f2 n (perform_then p f r cap s)"
  apply (erule race_inv_frame)
       apply simp
      apply (simp split: if_splits)
      apply blast
     apply (simp split: pstate.splits)
      apply (auto simp: reaction_targets_def)
  done

lemma race_inv_queue_update:
  "race_inv f1 f2 n s \<Longrightarrow> set js \<subseteq> set (queue s) \<Longrightarrow> race_inv f1 f2 n (s\<lparr>queue := js\<rparr>)"
  apply (erule race_inv_frame)
  apply auto
  done

lemma race_inv_timers_update:
  "race_inv f1 f2 n s \<Longrightarrow> \<forall>t\<in>set ts. t \<in> set (timers s) \<or> cb_targets (snd t) \<inter> prot n = {} \<Longrightarrow>
   race_inv f1 f2 n (s\<lparr>timers := ts, now := k\<rparr>)"
  apply (erule race_inv_frame)
  apply auto
  done

lemma resolve_promise_plain: "plain_value v \<Longrightarrow> resolve_promise p v s = settle p (Normal v) s"
  by (cases v) (simp_all add: resolve_promise_def)

lemma resolve_fn_plain: "plain_value v \<Longrightarrow> resolve_fn p v s = guarded_settle p (Normal v) s"
  by (simp add: resolve_fn_def guarded_settle_def resolve_promise_plain)

lemma reject_fn_guarded: "reject_fn p e s = guarded_settle p (Throw e) s"
  by (simp add: reject_fn_def guarded_settle_def)

text \<open>The composite operations on promises that do not belong to the race.\<close>

lemma race_inv_resolve_promise: "race_inv f1 f2 n s \<Longrightarrow> p \<notin> prot n \<Longrightarrow> race_inv f1 f2 n (resolve_promise p v s)"
  by (cases v)
    (auto simp: resolve_promise_def simp del: then_of.simps split: then_lookup.splits
      intro: race_inv_settle race_inv_enqueue)

lemma race_inv_resolve_fn: "race_inv f1 f2 n s \<Longrightarrow> p \<notin> prot n \<Longrightarrow> race_inv f1 f2 n (resolve_fn p v s)"
  by (simp add: resolve_fn_def race_inv_resolve_promise race_inv_lock)

lemma race_inv_reject_fn: "race_inv f1 f2 n s \<Longrightarrow> p \<notin> prot n \<Longrightarrow> race_inv f1 f2 n (reject_fn p v s)"
  by (simp add: reject_fn_def race_inv_settle race_inv_lock)

lemma race_inv_run_callback:
  "race_inv f1 f2 n s \<Longrightarrow> cb_targets cb \<inter> prot n = {} \<Longrightarrow> race_inv f1 f2 n (snd (run_callback cb v s))"
  by (cases cb) (simp_all add: race_inv_resolve_fn race_inv_reject_fn race_inv_resolve_promise race_inv_settle)

lemma race_inv_run_handler:
  "race_inv f1 f2 n s \<Longrightarrow> handler_targets h \<inter> prot n = {} \<Longrightarrow> race_inv f1 f2 n (snd (run_handler h c s))"
  by (cases h) (simp_all add: race_inv_run_callback)

lemma race_inv_resolve_capability:
  "race_inv f1 f2 n s \<Longrightarrow> set_option cap \<inter> prot n = {} \<Longrightarrow> race_inv f1 f2 n (resolve_capability cap c s)"
  by (cases cap; cases c) (simp_all add: race_inv_resolve_fn race_inv_reject_fn)

lemma race_inv_then_call:
  assumes "race_inv f1 f2 n s" "handler_targets f \<inter> prot n = {}" "handler_targets r \<inter> prot n = {}"
  shows "race_inv f1 f2 n (snd (then_call p f r s))"
proof -
  from assms(1) have "next_id s \<notin> prot n" by (auto simp: race_inv_def prot_def)
  with assms(2,3) have "reaction_targets (Reaction f r (Some (next_id s))) \<inter> prot n = {}"
    by (auto simp: reaction_targets_def)
  with race_inv_new_promise[OF assms(1)] show ?thesis
    by (simp add: then_call_def split_def race_inv_perform_then)
qed

lemma race_inv_run_then:
  "race_inv f1 f2 n s \<Longrightarrow> p \<notin> prot n \<Longrightarrow> race_inv f1 f2 n (run_then b p s)"
  by (cases b) (simp_all add: race_inv_resolve_promise race_inv_settle)

lemma race_inv_run_job:
  assumes "race_inv f1 f2 n s" "job_targets j \<inter> prot n = {}"
  shows "race_inv f1 f2 n (run_job j s)"
proof (cases j)
  case (ReactionJob h cap c)
  with assms(2) have t: "handler_targets h \<inter> prot n = {}" "set_option cap \<inter> prot n = {}" by auto
  from race_inv_run_handler[OF assms(1) t(1), of c] t(2) show ?thesis
    unfolding ReactionJob by (simp add: split_def Let_def race_inv_resolve_capability)
next
  case (ThenableJob p q)
  with assms(2) have "p \<notin> prot n" by simp
  with assms(1) show ?thesis unfolding ThenableJob by (simp add: race_inv_then_call)
next
  case (ObjectThenJob p b)
  with assms(2) have "p \<notin> prot n" by simp
  with assms(1) show ?thesis unfolding ObjectThenJob by (simp add: race_inv_run_then)
qed

text \<open>
  Settling a promise of the race preserves the invariant when the settlement is
  \<open>justified\<close>; the jobs of the race are the only code that does so, and theirs are.
\<close>

lemma race_inv_pstate_update:
  assumes gp: "race_pstate f1 f2 n s" and b: "f1 < n" "f2 < n"
    and pend: "pstate (store s p) = Pending"
    and j: "justified f1 f2 n s p c"
    and ps: "\<And>q. pstate (store s' q) = (if q = p then settled_as c else pstate (store s q))"
  shows "race_pstate f1 f2 n s'"
proof -
  from gp have g1: "\<And>i. i < 2 \<Longrightarrow> pstate (store s (n + 1 + i)) = Pending \<or>
        (\<exists>c. pstate (store s ([f1, f2] ! i)) = settled_as c \<and>
             pstate (store s (n + 1 + i)) = settled_as (index_result i c))"
    and g2: "pstate (store s (n + 3)) = Pending \<or>
        (\<exists>i<2. pstate (store s (n + 1 + i)) \<noteq> Pending \<and>
               pstate (store s (n + 3)) = pstate (store s (n + 1 + i)))"
    and g3: "pstate (store s n) = Pending \<or>
        (\<exists>c. pstate (store s (n + 3)) = settled_as c \<and>
             pstate (store s n) = settled_as (race_result f1 f2 c))"
    unfolding race_pstate_def by blast+
  have same: "\<And>q. pstate (store s q) \<noteq> Pending \<Longrightarrow> pstate (store s' q) = pstate (store s q)"
    using pend ps by auto
  have same': "\<And>q. q \<noteq> p \<Longrightarrow> pstate (store s' q) = pstate (store s q)"
    using ps by auto
  have new: "pstate (store s' p) = settled_as c" using ps by simp
  have xs: "\<And>i c0. i < 2 \<Longrightarrow> pstate (store s ([f1, f2] ! i)) = settled_as c0 \<Longrightarrow>
      pstate (store s' ([f1, f2] ! i)) = settled_as c0"
    using same by simp
  have h1: "\<forall>i<2. pstate (store s' (n + 1 + i)) = Pending \<or>
        (\<exists>c. pstate (store s' ([f1, f2] ! i)) = settled_as c \<and>
             pstate (store s' (n + 1 + i)) = settled_as (index_result i c))"
  proof (intro allI impI)
    fix i :: nat assume i: "i < 2"
    show "pstate (store s' (n + 1 + i)) = Pending \<or>
        (\<exists>c. pstate (store s' ([f1, f2] ! i)) = settled_as c \<and>
             pstate (store s' (n + 1 + i)) = settled_as (index_result i c))"
    proof (cases "p = n + 1 + i")
      case True
      with j i have "\<exists>c0. pstate (store s ([f1, f2] ! i)) = settled_as c0 \<and> c = index_result i c0"
        unfolding justified_def by auto
      then obtain c0 where "pstate (store s ([f1, f2] ! i)) = settled_as c0" "c = index_result i c0"
        by blast
      with xs[OF i] new True show ?thesis by auto
    next
      case False
      then have "pstate (store s' (n + 1 + i)) = pstate (store s (n + 1 + i))"
        using same' by simp
      with g1[OF i] xs[OF i] show ?thesis by metis
    qed
  qed
  have h2: "pstate (store s' (n + 3)) = Pending \<or>
        (\<exists>i<2. pstate (store s' (n + 1 + i)) \<noteq> Pending \<and>
               pstate (store s' (n + 3)) = pstate (store s' (n + 1 + i)))"
  proof (cases "p = n + 3")
    case True
    with j obtain i where i: "i < 2" "pstate (store s (n + 1 + i)) = settled_as c"
      unfolding justified_def by auto
    from i(2) same[of "n + 1 + i"] have "pstate (store s' (n + 1 + i)) = settled_as c" by simp
    with new True i(1) show ?thesis by auto
  next
    case False
    then have r: "pstate (store s' (n + 3)) = pstate (store s (n + 3))" using same' by simp
    from g2 show ?thesis
    proof
      assume "pstate (store s (n + 3)) = Pending"
      with r show ?thesis by simp
    next
      assume "\<exists>i<2. pstate (store s (n + 1 + i)) \<noteq> Pending \<and>
               pstate (store s (n + 3)) = pstate (store s (n + 1 + i))"
      then obtain i where i: "i < 2" "pstate (store s (n + 1 + i)) \<noteq> Pending"
          "pstate (store s (n + 3)) = pstate (store s (n + 1 + i))" by blast
      from same[OF i(2)] i r show ?thesis by auto
    qed
  qed
  have h3: "pstate (store s' n) = Pending \<or>
        (\<exists>c. pstate (store s' (n + 3)) = settled_as c \<and>
             pstate (store s' n) = settled_as (race_result f1 f2 c))"
  proof (cases "p = n")
    case True
    with j obtain c0 where c0: "pstate (store s (n + 3)) = settled_as c0" "c = race_result f1 f2 c0"
      unfolding justified_def by auto
    from c0(1) same[of "n + 3"] have "pstate (store s' (n + 3)) = settled_as c0" by simp
    with new True c0(2) show ?thesis by auto
  next
    case False
    then have r: "pstate (store s' n) = pstate (store s n)" using same' by simp
    from g3 show ?thesis
    proof
      assume "pstate (store s n) = Pending"
      with r show ?thesis by simp
    next
      assume "\<exists>c. pstate (store s (n + 3)) = settled_as c \<and>
             pstate (store s n) = settled_as (race_result f1 f2 c)"
      then obtain c0 where c0: "pstate (store s (n + 3)) = settled_as c0"
          "pstate (store s n) = settled_as (race_result f1 f2 c0)" by blast
      from c0(1) same[of "n + 3"] have "pstate (store s' (n + 3)) = settled_as c0" by simp
      with r c0(2) show ?thesis by auto
    qed
  qed
  from h1 h2 h3 show ?thesis unfolding race_pstate_def by blast
qed

lemma race_inv_guarded_settle:
  assumes g: "race_inv f1 f2 n s" and p: "p \<in> prot n" and j: "justified f1 f2 n s p c"
  shows "race_inv f1 f2 n (guarded_settle p c s)"
proof (cases "resolved (store s p)")
  case True
  then show ?thesis using g by (simp add: guarded_settle_def)
next
  case False
  show ?thesis
  proof (cases "pstate (store s p) = Pending")
    case np: False
    then have "settle p c (lock p s) = lock p s" by (simp add: settle_def)
    with False np g show ?thesis by (simp add: guarded_settle_def race_inv_lock_settled)
  next
    case True
    let ?s = "settle p c (lock p s)"
    from g have b: "f1 < n" "f2 < n" "n + 3 < next_id s" and gs: "race_store f1 f2 n s"
      and gq: "race_queue f1 f2 n s" and gt: "race_timers n s" and gl: "race_lock n s"
      and gp: "race_pstate f1 f2 n s"
      by (simp_all add: race_inv_def)
    have keep: "\<And>q. pstate (store s q) \<noteq> Pending \<Longrightarrow> pstate (store ?s q) = pstate (store s q)"
      using True by auto
    have 1: "race_store f1 f2 n ?s"
      using gs unfolding race_store_def by (simp split: if_splits)
    have 2: "race_queue f1 f2 n ?s"
      unfolding race_queue_def
    proof (intro ballI impI)
      fix j assume j: "j \<in> set (queue ?s)" and t: "job_targets j \<inter> prot n \<noteq> {}"
      from j True consider (old) "j \<in> set (queue s)"
        | (new) rc where "rc \<in> set (reactions (store s p))" "j = reaction_job c rc"
        by auto
      then show "allowed_job f1 f2 n ?s j"
      proof cases
        case old
        with gq t have "allowed_job f1 f2 n s j" unfolding race_queue_def by blast
        then show ?thesis using b(1,2) keep by (rule allowed_job_keep)
      next
        case new
        from t new(2) job_targets_reaction_job[of c rc] have "reaction_targets rc \<inter> prot n \<noteq> {}"
          by blast
        with gs new(1) have "allowed f1 f2 n p rc" unfolding race_store_def by blast
        moreover have "pstate (store ?s p) = settled_as c" using True by simp
        ultimately show ?thesis using new(2) unfolding allowed_job_def by blast
      qed
    qed
    have 3: "race_timers n ?s" using gt unfolding race_timers_def by simp
    have 4: "race_lock n ?s" using gl True unfolding race_lock_def by auto
    have ps: "\<And>q. pstate (store ?s q) = (if q = p then settled_as c else pstate (store s q))"
      using True by simp
    have 5: "race_pstate f1 f2 n ?s"
      using gp b(1,2) True j ps by (rule race_inv_pstate_update)
    from b 1 2 3 4 5 have "race_inv f1 f2 n ?s" by (simp add: race_inv_def)
    with False show ?thesis by (simp add: guarded_settle_def)
  qed
qed

lemma run_index_job:
  "run_job (reaction_job c (index_reaction n i)) s = guarded_settle (n + 1 + i) (index_result i c) s"
  by (cases c) (simp_all add: index_reaction_def resolve_fn_plain reject_fn_guarded)

lemma run_race_job:
  "(\<And>v. c = Normal v \<Longrightarrow> plain_value v) \<Longrightarrow>
   run_job (reaction_job c (race_reaction n k)) s =
     resolve_fn (n + 4 + k) Undefined (guarded_settle (n + 3) c s)"
  by (cases c) (simp_all add: race_reaction_def resolve_fn_plain reject_fn_guarded)

lemma run_await_job:
  "run_job (reaction_job c (await_reaction f1 f2 n)) s = guarded_settle n (race_result f1 f2 c) s"
  by (cases c) (simp_all add: await_reaction_def resolve_fn_plain reject_fn_guarded)

lemma index_result_plain: "index_result i c0 = Normal v \<Longrightarrow> plain_value v"
  by (cases c0) auto

text \<open>
  An index promise is only ever fulfilled with its own index, so the continuation of
  \<^verbatim>\<open>properRace\<close> reads \<^verbatim>\<open>promiseArray\<close> at \<open>0\<close> or \<open>1\<close>.
\<close>

lemma race_inv_index_settled:
  assumes "race_inv f1 f2 n s" "i < 2" "pstate (store s (n + 1 + i)) = settled_as c"
  shows "\<exists>c0. pstate (store s ([f1, f2] ! i)) = settled_as c0 \<and> c = index_result i c0"
  using assms unfolding race_inv_def race_pstate_def by (metis settled_as_inj settled_as_not_Pending(1))

lemma race_inv_allowed_job_run:
  assumes g: "race_inv f1 f2 n s" and a: "allowed_job f1 f2 n s j"
  shows "race_inv f1 f2 n (run_job j s)"
proof -
  from a obtain q rc c where *: "allowed f1 f2 n q rc" "j = reaction_job c rc"
      "pstate (store s q) = settled_as c"
    unfolding allowed_job_def by blast
  from *(1) consider (idx) i where "i < 2" "rc = index_reaction n i" "q = [f1, f2] ! i"
    | (race) i where "i < 2" "rc = race_reaction n i" "q = n + 1 + i"
    | (await) "rc = await_reaction f1 f2 n" "q = n + 3"
    unfolding allowed_def by blast
  then show ?thesis
  proof cases
    case idx
    have "n + 1 + i \<in> prot n" using idx(1) by (auto simp: prot_def)
    moreover have "justified f1 f2 n s (n + 1 + i) (index_result i c)"
      unfolding justified_def using idx *(3) by blast
    ultimately show ?thesis unfolding *(2) idx(2) run_index_job
      using g by (simp add: race_inv_guarded_settle)
  next
    case race
    from race_inv_index_settled[OF g race(1)] *(3) race(3) obtain c0 where c0: "c = index_result i c0"
      by blast
    have pl: "\<And>v. c = Normal v \<Longrightarrow> plain_value v" using c0 by (cases c0) auto
    have "justified f1 f2 n s (n + 3) c"
      unfolding justified_def using race *(3) by blast
    then have "race_inv f1 f2 n (guarded_settle (n + 3) c s)"
      using g by (simp add: race_inv_guarded_settle prot_def)
    moreover have "n + 4 + i \<notin> prot n" by (simp add: prot_def)
    moreover have "run_job (reaction_job c (race_reaction n i)) s =
        resolve_fn (n + 4 + i) Undefined (guarded_settle (n + 3) c s)"
      by (rule run_race_job) (rule pl)
    ultimately show ?thesis unfolding *(2) race(2)
      by (simp add: race_inv_resolve_fn)
  next
    case await
    have "justified f1 f2 n s n (race_result f1 f2 c)"
      unfolding justified_def using await *(3) by blast
    then show ?thesis unfolding *(2) await(1) run_await_job
      using g by (simp add: race_inv_guarded_settle prot_def)
  qed
qed

lemma allowed_job_queue_update [simp]: "allowed_job f1 f2 n (s\<lparr>queue := js\<rparr>) j = allowed_job f1 f2 n s j"
  by (simp add: allowed_job_def)

lemma race_inv_tick: "race_inv f1 f2 n s \<Longrightarrow> race_inv f1 f2 n (tick s)"
proof (cases "queue s")
  case Nil
  assume "race_inv f1 f2 n s"
  with Nil show ?thesis by (simp add: tick_def)
next
  case (Cons j js)
  assume g: "race_inv f1 f2 n s"
  then have g': "race_inv f1 f2 n (s\<lparr>queue := js\<rparr>)" using Cons by (auto intro: race_inv_queue_update)
  show ?thesis
  proof (cases "job_targets j \<inter> prot n = {}")
    case True
    with g' Cons show ?thesis by (simp add: tick_def race_inv_run_job)
  next
    case False
    with g Cons have "allowed_job f1 f2 n s j" by (simp add: race_inv_def race_queue_def)
    then have "allowed_job f1 f2 n (s\<lparr>queue := js\<rparr>) j" by simp
    with g' Cons show ?thesis by (simp add: tick_def race_inv_allowed_job_run)
  qed
qed

lemma race_inv_fire: "race_inv f1 f2 n s \<Longrightarrow> race_inv f1 f2 n (fire i s)"
proof (cases "i < length (timers s)")
  case False
  assume "race_inv f1 f2 n s"
  with False show ?thesis by (simp add: fire_def)
next
  case True
  assume g: "race_inv f1 f2 n s"
  obtain due cb where t: "timers s ! i = (due, cb)" by (cases "timers s ! i")
  with True have "(due, cb) \<in> set (timers s)" by (metis nth_mem)
  with g have c: "cb_targets cb \<inter> prot n = {}" unfolding race_inv_def race_timers_def by fastforce
  have "race_inv f1 f2 n (s\<lparr>timers := take i (timers s) @ drop (Suc i) (timers s), now := max (now s) due\<rparr>)"
    using g by (rule race_inv_timers_update) (auto dest: in_set_takeD in_set_dropD)
  from race_inv_run_callback[OF this c] True t show ?thesis by (simp add: fire_def)
qed

lemma race_inv_set_timeout: "race_inv f1 f2 n s \<Longrightarrow> cb_targets cb \<inter> prot n = {} \<Longrightarrow> race_inv f1 f2 n (set_timeout cb ms s)"
  unfolding set_timeout_def
  apply (erule race_inv_frame)
  apply auto
  done

lemma race_inv_event: "race_inv f1 f2 n s \<Longrightarrow> event_targets e \<inter> prot n = {} \<Longrightarrow> race_inv f1 f2 n (apply_event e s)"
proof (cases e)
  case (Await p f r)
  assume "race_inv f1 f2 n s" "event_targets e \<inter> prot n = {}"
  then show ?thesis unfolding Await
    by (auto simp: await_Builtin reaction_targets_def intro!: race_inv_perform_then)
qed (auto simp: race_inv_tick race_inv_fire race_inv_run_callback race_inv_new_promise race_inv_set_timeout intro!: race_inv_then_call)

lemma race_inv_events: "race_inv f1 f2 n s \<Longrightarrow> outside (prot n) es \<Longrightarrow> race_inv f1 f2 n (run_events es s)"
  by (induction es arbitrary: s) (simp_all add: outside_def race_inv_event)

section \<open>The call of a race\<close>

lemma then_call_simps [simp]:
  "fst (then_call p f r s) = next_id s"
  "snd (then_call p f r s) = perform_then p f r (Some (next_id s)) (snd (new_promise s))"
  by (simp_all add: then_call_def split_def)

lemma properRace_builtin:
  "properRace_refs (Builtin, first) (Builtin, second) s = properRace first second s"
  by (simp add: properRace_def)

lemma properRace_fst [simp]: "fst (properRace f1 f2 s) = next_id s"
  by (simp add: properRace_def properRace_refs_def then_ref_def promise_race_def split_def Let_def)

lemma properRace_snd: "snd (properRace f1 f2 s) = race_setup f1 f2 s"
  by (simp add: properRace_def properRace_refs_def then_ref_def race_setup_def promise_race_def await_Builtin split_def Let_def
      eval_nat_numeral)

lemma race_setup_next_id [simp]: "next_id (race_setup f1 f2 s) = next_id s + 6"
  by (simp add: race_setup_def Let_def)

lemma race_setup_timers [simp]: "timers (race_setup f1 f2 s) = timers s"
  by (simp add: race_setup_def Let_def)

lemma race_setup_pstate:
  "pstate (store (race_setup f1 f2 s) q) =
     (if next_id s \<le> q \<and> q < next_id s + 6 then Pending else pstate (store s q))"
  by (simp add: race_setup_def Let_def)

lemma race_setup_resolved:
  "resolved (store (race_setup f1 f2 s) q) =
     (if next_id s \<le> q \<and> q < next_id s + 6 then False else resolved (store s q))"
  by (simp add: race_setup_def Let_def)

lemma race_setup_queue:
  "f1 < next_id s \<Longrightarrow> f2 < next_id s \<Longrightarrow>
   queue (race_setup f1 f2 s) =
     queue s @ settled_jobs (pstate (store s f1)) (index_reaction (next_id s) 0)
             @ settled_jobs (pstate (store s f2)) (index_reaction (next_id s) 1)"
  by (simp add: race_setup_def Let_def index_reaction_def split: pstate.splits)

lemma race_setup_reactions:
  "f1 < next_id s \<Longrightarrow> f2 < next_id s \<Longrightarrow>
   reactions (store (race_setup f1 f2 s) q) =
     (if q = next_id s + 1 then [race_reaction (next_id s) 0]
      else if q = next_id s + 2 then [race_reaction (next_id s) 1]
      else if q = next_id s + 3 then [await_reaction f1 f2 (next_id s)]
      else if next_id s \<le> q \<and> q < next_id s + 6 then []
      else reactions (store s q)
           @ (if q = f1 then pending_reactions (pstate (store s f1)) (index_reaction (next_id s) 0) else [])
           @ (if q = f2 then pending_reactions (pstate (store s f2)) (index_reaction (next_id s) 1) else []))"
  by (cases "pstate (store s f1)"; cases "pstate (store s f2)")
     (auto simp: race_setup_def Let_def index_reaction_def race_reaction_def await_reaction_def)

lemma in_pending_reactions: "rc \<in> set (pending_reactions st rc0) \<longleftrightarrow> rc = rc0 \<and> st = Pending"
  by (cases st) auto

lemma in_settled_jobs:
  "j \<in> set (settled_jobs st rc) \<longleftrightarrow> (\<exists>c. st = settled_as c \<and> j = reaction_job c rc)"
proof (cases st)
  case Pending
  then show ?thesis by simp
next
  case (Fulfilled v)
  show ?thesis unfolding Fulfilled
    by (metis settled_as.simps(1) settled_as_inj settled_jobs.simps(2) list.set_intros(1)
        empty_iff empty_set set_ConsD)
next
  case (Rejected e)
  show ?thesis unfolding Rejected
    by (metis settled_as.simps(2) settled_as_inj settled_jobs.simps(3) list.set_intros(1)
        empty_iff empty_set set_ConsD)
qed

lemma allowed_index: "i < 2 \<Longrightarrow> allowed f1 f2 n ([f1, f2] ! i) (index_reaction n i)"
  by (auto simp: allowed_def)

lemma allowed_race: "i < 2 \<Longrightarrow> allowed f1 f2 n (n + 1 + i) (race_reaction n i)"
  by (auto simp: allowed_def)

lemma allowed_await: "allowed f1 f2 n (n + 3) (await_reaction f1 f2 n)"
  by (auto simp: allowed_def)

lemma race_inv_race_setup:
  assumes w: "well_formed s" and bd: "f1 < next_id s" "f2 < next_id s"
  shows "race_inv f1 f2 (next_id s) (race_setup f1 f2 s)"
proof -
  let ?n = "next_id s" and ?s = "race_setup f1 f2 s"
  from w have w1: "\<And>q rc. rc \<in> set (reactions (store s q)) \<Longrightarrow> reaction_targets rc \<inter> prot ?n = {}"
    and w2: "\<And>j. j \<in> set (queue s) \<Longrightarrow> job_targets j \<inter> prot ?n = {}"
    and w3: "\<And>t. t \<in> set (timers s) \<Longrightarrow> cb_targets (snd t) \<inter> prot ?n = {}"
    unfolding well_formed_def prot_def by fastforce+
  have a0: "allowed f1 f2 ?n f1 (index_reaction ?n 0)" using allowed_index[of 0 f1 f2 ?n] by simp
  have a1: "allowed f1 f2 ?n f2 (index_reaction ?n 1)" using allowed_index[of 1 f1 f2 ?n] by simp
  have k0: "allowed f1 f2 ?n (?n + 1) (race_reaction ?n 0)" using allowed_race[of 0 f1 f2 ?n] by simp
  have k1: "allowed f1 f2 ?n (?n + 2) (race_reaction ?n 1)" using allowed_race[of 1 f1 f2 ?n] by simp
  have 1: "race_store f1 f2 ?n ?s"
    unfolding race_store_def
  proof (intro allI impI)
    fix q rc assume rc: "rc \<in> set (reactions (store ?s q))" and t: "reaction_targets rc \<inter> prot ?n \<noteq> {}"
    from rc t w1[of rc q] show "allowed f1 f2 ?n q rc"
      unfolding race_setup_reactions[OF bd]
      using a0 a1 k0 k1 allowed_await[of f1 f2 ?n]
      by (auto simp: in_pending_reactions split: if_splits)
  qed
  have ps: "\<And>q. q < ?n \<Longrightarrow> pstate (store ?s q) = pstate (store s q)"
    by (simp add: race_setup_pstate)
  have 2: "race_queue f1 f2 ?n ?s"
    unfolding race_queue_def
  proof (intro ballI impI)
    fix j assume j: "j \<in> set (queue ?s)" and t: "job_targets j \<inter> prot ?n \<noteq> {}"
    from j t w2[of j] consider
      (ja) c where "pstate (store s f1) = settled_as c" "j = reaction_job c (index_reaction ?n 0)"
      | (jb) c where "pstate (store s f2) = settled_as c" "j = reaction_job c (index_reaction ?n 1)"
      unfolding race_setup_queue[OF bd] by (auto simp: in_settled_jobs)
    then show "allowed_job f1 f2 ?n ?s j"
    proof cases
      case ja
      with a0 ps[OF bd(1)] show ?thesis unfolding allowed_job_def by metis
    next
      case jb
      with a1 ps[OF bd(2)] show ?thesis unfolding allowed_job_def by metis
    qed
  qed
  have 3: "race_timers ?n ?s" unfolding race_timers_def using w3 by simp
  have 4: "race_lock ?n ?s" unfolding race_lock_def by (auto simp: race_setup_resolved prot_def)
  have 5: "race_pstate f1 f2 ?n ?s" unfolding race_pstate_def by (simp add: race_setup_pstate)
  from bd 1 2 3 4 5 show ?thesis by (simp add: race_inv_def)
qed

section \<open>What a race can result in\<close>



text \<open>
  In the theorems about \<^verbatim>\<open>properRace\<close>, \<open>s\<close> is the state in which it is called: any
  well-formed state, with the two arguments allocated and in any state of their own.  The
  events \<open>es\<close> are what the surrounding program does after the call: any events at all that
  are outside the four promises of the race.
\<close>




text \<open>Evaluation of the examples.\<close>

lemma race_setup_unfold:
  "race_setup f1 f2 s =
     perform_then (next_id s + 3) (Some (RaceResume [f1, f2] (next_id s))) (Some (RaceThrow (next_id s))) None
      (perform_then (next_id s + 2) (Some (ResolveFn (next_id s + 3))) (Some (RejectFn (next_id s + 3))) (Some (next_id s + 5))
        (snd (new_promise
          (perform_then (next_id s + 1) (Some (ResolveFn (next_id s + 3))) (Some (RejectFn (next_id s + 3))) (Some (next_id s + 4))
            (snd (new_promise (snd (new_promise
              (perform_then f2 (Some (IndexOf 1)) None (Some (next_id s + 2))
                (snd (new_promise
                  (perform_then f1 (Some (IndexOf 0)) None (Some (next_id s + 1))
                    (snd (new_promise (snd (new_promise s))))))))))))))))"
  by (simp add: race_setup_def Let_def)

lemmas eval_simps = new_promise_def perform_then_def settle_def lock_def enqueue_def resolve_fn_def
  reject_fn_def resolve_promise_def tick_def fresh_promise_def set_timeout_def fire_def await_Builtin
  split_def properRace_snd race_setup_unfold outcome_def

lemmas access_simps = new_promise_simps perform_then_simps settle_simps lock_simps enqueue_simps
  then_call_simps fresh_promise_simps

lemma two_pending_eq:
  "two_pending = \<lparr>next_id = 2, store = (\<lambda>_. fresh_promise), queue = [], timers = [], now = 0\<rparr>"
  by (simp add: two_pending_def empty_state_def new_promise_def fun_eq_iff)

lemma well_formed_two_pending: "well_formed two_pending"
  by (simp add: well_formed_def two_pending_eq)





lemma run_reject_first_input:
  "pstate (store (run_events reject_first (snd (properRace 0 1 two_pending))) 0) = Rejected (Str ''boom'')"
  by (simp add: reject_first_def two_pending_eq eval_simps del: access_simps)

lemma bounds_two_pending: "0 < next_id two_pending" "1 < next_id two_pending"
  by (simp_all add: two_pending_eq)





section \<open>The order of settlement\<close>

text \<open>
  The job queue is first in, first out: a job at position \<open>k\<close> moves to position \<open>k - 1\<close>
  with each turn, and jobs are only appended behind it.
\<close>

lemma heads_step: "heads Q j k s \<Longrightarrow> step_rel Q' s s' \<Longrightarrow> heads Q j k s'"
  unfolding heads_def step_rel_def by (metis append.assoc append_Cons)

lemma heads_Suc:
  assumes "heads Q j (Suc k) s"
  obtains j0 js where "queue s = j0 # js" "job_targets j0 \<inter> Q = {}" "heads Q j k (s\<lparr>queue := js\<rparr>)"
proof -
  from assms obtain pre post where *: "queue s = pre @ j # post" "length pre = Suc k"
      "\<forall>j'\<in>set pre. job_targets j' \<inter> Q = {}"
    unfolding heads_def by blast
  from *(2) obtain j0 pre' where p: "pre = j0 # pre'" "length pre' = k" by (cases pre) auto
  have "heads Q j k (s\<lparr>queue := pre' @ j # post\<rparr>)"
    unfolding heads_def using p *(3) by auto
  with that[of j0 "pre' @ j # post"] * p show thesis by auto
qed

lemma heads_0: "heads Q j 0 s \<Longrightarrow> \<exists>post. queue s = j # post"
  unfolding heads_def by auto

lemma heads_mono: "heads Q j k s \<Longrightarrow> Q' \<subseteq> Q \<Longrightarrow> heads Q' j k s"
  unfolding heads_def by blast

lemma heads_first:
  assumes "j \<in> set (queue s)" "P j" "\<And>j'. j' \<in> set (queue s) \<Longrightarrow> \<not> P j' \<Longrightarrow> job_targets j' \<inter> Q = {}"
  shows "\<exists>j' k. P j' \<and> heads Q j' k s"
proof -
  from assms(1,2) have "\<exists>x\<in>set (queue s). P x" by blast
  from split_list_first_prop[OF this] obtain pre j' post where
    *: "queue s = pre @ j' # post" "P j'" "\<forall>y\<in>set pre. \<not> P y" by blast
  have "\<forall>y\<in>set pre. job_targets y \<inter> Q = {}"
    using *(1,3) assms(3) by auto
  with * show ?thesis unfolding heads_def by blast
qed

lemma tick_Cons: "queue s = j # js \<Longrightarrow> tick s = run_job j (s\<lparr>queue := js\<rparr>)"
  by (simp add: tick_def)

lemma step_tick_unprot:
  assumes "queue s = j # js" "job_targets j \<inter> Q = {}" "\<forall>p\<in>Q. p < next_id s"
  shows "step_rel Q (s\<lparr>queue := js\<rparr>) (tick s)"
  unfolding tick_Cons[OF assms(1)] using assms(2,3) by (intro step_run_job) auto

lemma index_job_targets: "job_targets (reaction_job c (index_reaction n i)) = {n + 1 + i}"
  by (cases c) (simp_all add: index_reaction_def)

lemma race_job_targets: "job_targets (reaction_job c (race_reaction n i)) = {n + 3, n + 4 + i}"
  by (cases c) (auto simp: race_reaction_def)

lemma await_job_targets: "job_targets (reaction_job c (await_reaction f1 f2 n)) = {n}"
  by (cases c) (simp_all add: await_reaction_def)

lemma index_job_inj:
  "reaction_job c (index_reaction n i) = reaction_job c' (index_reaction n i') \<longleftrightarrow> c = c' \<and> i = i'"
  by (cases c; cases c') (auto simp: index_reaction_def)

lemma race_job_inj:
  "reaction_job c (race_reaction n i) = reaction_job c' (race_reaction n i') \<longleftrightarrow> c = c' \<and> i = i'"
  by (cases c; cases c') (auto simp: race_reaction_def)

lemma await_job_inj:
  "reaction_job c (await_reaction f1 f2 n) = reaction_job c' (await_reaction f1 f2 n) \<longleftrightarrow> c = c'"
  by (cases c; cases c') (auto simp: await_reaction_def)

lemma job_kinds_distinct:
  "reaction_job c (index_reaction n i) \<noteq> reaction_job c' (race_reaction n i')"
  "reaction_job c (index_reaction n i) \<noteq> reaction_job c' (await_reaction f1 f2 n)"
  "reaction_job c (race_reaction n i) \<noteq> reaction_job c' (await_reaction f1 f2 n)"
  by (cases c; cases c'; simp add: index_reaction_def race_reaction_def await_reaction_def)+

text \<open>The jobs in the queue that settle a promise of the race are the race's own.\<close>

lemma allowed_job_cases:
  assumes "allowed_job f1 f2 n s j"
  obtains (idx) i c where "i < 2" "j = reaction_job c (index_reaction n i)"
      "pstate (store s ([f1, f2] ! i)) = settled_as c"
    | (race) i c where "i < 2" "j = reaction_job c (race_reaction n i)"
      "pstate (store s (n + 1 + i)) = settled_as c"
    | (await) c where "j = reaction_job c (await_reaction f1 f2 n)"
      "pstate (store s (n + 3)) = settled_as c"
  using assms unfolding allowed_job_def allowed_def by blast

lemma race_inv_queue_job:
  assumes "race_inv f1 f2 n s" "j \<in> set (queue s)" "job_targets j \<inter> prot n \<noteq> {}"
  shows "allowed_job f1 f2 n s j"
  using assms unfolding race_inv_def race_queue_def by blast

lemma race_inv_index_job:
  assumes g: "race_inv f1 f2 n s" and j: "reaction_job c (index_reaction n i) \<in> set (queue s)" and i: "i < 2"
  shows "pstate (store s ([f1, f2] ! i)) = settled_as c"
proof -
  have "job_targets (reaction_job c (index_reaction n i)) \<inter> prot n \<noteq> {}"
    using i by (auto simp: index_job_targets prot_def)
  from race_inv_queue_job[OF g j this] show ?thesis
    by (cases rule: allowed_job_cases) (auto simp: index_job_inj job_kinds_distinct)
qed

lemma race_inv_race_job:
  assumes g: "race_inv f1 f2 n s" and j: "reaction_job c (race_reaction n i) \<in> set (queue s)" and i: "i < 2"
  shows "pstate (store s (n + 1 + i)) = settled_as c"
proof -
  have "job_targets (reaction_job c (race_reaction n i)) \<inter> prot n \<noteq> {}"
    by (auto simp: race_job_targets prot_def)
  from race_inv_queue_job[OF g j this] show ?thesis
    by (cases rule: allowed_job_cases)
       (auto simp: race_job_inj job_kinds_distinct job_kinds_distinct[symmetric])
qed

lemma race_inv_await_job:
  assumes g: "race_inv f1 f2 n s" and j: "reaction_job c (await_reaction f1 f2 n) \<in> set (queue s)"
  shows "pstate (store s (n + 3)) = settled_as c"
proof -
  have "job_targets (reaction_job c (await_reaction f1 f2 n)) \<inter> prot n \<noteq> {}"
    by (auto simp: await_job_targets prot_def)
  from race_inv_queue_job[OF g j this] show ?thesis
    by (cases rule: allowed_job_cases)
       (auto simp: await_job_inj job_kinds_distinct job_kinds_distinct[symmetric])
qed

lemma race_inv_bounds: "race_inv f1 f2 n s \<Longrightarrow> f1 < n \<and> f2 < n \<and> n + 3 < next_id s"
  by (simp add: race_inv_def)

lemma prot_lt: "race_inv f1 f2 n s \<Longrightarrow> \<forall>p\<in>prot n. p < next_id s"
  by (auto simp: race_inv_def prot_def)

lemma input_lt: "race_inv f1 f2 n s \<Longrightarrow> i < 2 \<Longrightarrow> [f1, f2] ! i < n"
  by (auto simp: race_inv_def less_2_cases_iff)

lemma waiting_step:
  assumes w: "waiting f1 f2 n s" and st: "step_rel (prot n) s s'" and g: "race_inv f1 f2 n s"
  shows "waiting f1 f2 n s'"
proof -
  from st have p: "\<And>p. p \<in> prot n \<Longrightarrow> pstate (store s' p) = pstate (store s p)"
    and r: "\<And>p rc. p \<in> prot n \<Longrightarrow> rc \<in> set (reactions (store s p)) \<Longrightarrow> rc \<in> set (reactions (store s' p))"
    and q: "\<And>j. j \<in> set (queue s) \<Longrightarrow> j \<in> set (queue s')"
    and x: "\<And>q rc. q < next_id s \<Longrightarrow> pstate (store s q) = Pending \<Longrightarrow>
        rc \<in> set (reactions (store s q)) \<Longrightarrow>
        (pstate (store s' q) = Pending \<and> rc \<in> set (reactions (store s' q))) \<or>
        (\<exists>c. pstate (store s' q) = settled_as c \<and> reaction_job c rc \<in> set (queue s'))"
    unfolding step_rel_def by auto
  have 1: "\<forall>p\<in>prot n. pstate (store s' p) = Pending"
    using w p unfolding waiting_def by simp
  have 2: "\<forall>i<2. race_reaction n i \<in> set (reactions (store s' (n + 1 + i)))"
  proof (intro allI impI)
    fix i :: nat assume i: "i < 2"
    then have "n + 1 + i \<in> prot n" by (auto simp: prot_def)
    moreover from w i have "race_reaction n i \<in> set (reactions (store s (n + 1 + i)))"
      unfolding waiting_def by blast
    ultimately show "race_reaction n i \<in> set (reactions (store s' (n + 1 + i)))" by (rule r)
  qed
  have 3: "await_reaction f1 f2 n \<in> set (reactions (store s' (n + 3)))"
    using w r[of "n + 3"] unfolding waiting_def by (simp add: prot_def)
  have 4: "\<forall>i<2. (pstate (store s' ([f1, f2] ! i)) = Pending \<and>
             index_reaction n i \<in> set (reactions (store s' ([f1, f2] ! i)))) \<or>
            (\<exists>c. reaction_job c (index_reaction n i) \<in> set (queue s'))"
  proof (intro allI impI)
    fix i :: nat assume i: "i < 2"
    from input_lt[OF g i] race_inv_bounds[OF g] have lt: "[f1, f2] ! i < next_id s" by simp
    from w i have "(pstate (store s ([f1, f2] ! i)) = Pending \<and>
             index_reaction n i \<in> set (reactions (store s ([f1, f2] ! i)))) \<or>
            (\<exists>c. reaction_job c (index_reaction n i) \<in> set (queue s))"
      unfolding waiting_def by blast
    then show "(pstate (store s' ([f1, f2] ! i)) = Pending \<and>
             index_reaction n i \<in> set (reactions (store s' ([f1, f2] ! i)))) \<or>
            (\<exists>c. reaction_job c (index_reaction n i) \<in> set (queue s'))"
    proof
      assume "pstate (store s ([f1, f2] ! i)) = Pending \<and>
             index_reaction n i \<in> set (reactions (store s ([f1, f2] ! i)))"
      with x[OF lt] show ?thesis by blast
    next
      assume "\<exists>c. reaction_job c (index_reaction n i) \<in> set (queue s)"
      with q show ?thesis by blast
    qed
  qed
  from 1 2 3 4 show ?thesis unfolding waiting_def by blast
qed

lemma waiting_pop:
  assumes w: "waiting f1 f2 n s" and q: "queue s = j # js" and t: "job_targets j \<inter> prot n = {}"
  shows "waiting f1 f2 n (s\<lparr>queue := js\<rparr>)"
proof -
  have "\<And>i c. i < 2 \<Longrightarrow> reaction_job c (index_reaction n i) \<in> set (queue s) \<Longrightarrow>
      reaction_job c (index_reaction n i) \<in> set js"
  proof -
    fix i :: nat and c assume i: "i < 2" and m: "reaction_job c (index_reaction n i) \<in> set (queue s)"
    have "job_targets (reaction_job c (index_reaction n i)) \<inter> prot n \<noteq> {}"
      using i by (auto simp: index_job_targets prot_def)
    with t have "reaction_job c (index_reaction n i) \<noteq> j" by auto
    with m q show "reaction_job c (index_reaction n i) \<in> set js" by auto
  qed
  with w show ?thesis unfolding waiting_def by (simp; blast)
qed

lemma race_inv_pop: "race_inv f1 f2 n s \<Longrightarrow> queue s = j # js \<Longrightarrow> race_inv f1 f2 n (s\<lparr>queue := js\<rparr>)"
  by (rule race_inv_queue_update) auto

lemma waiting_tick_unprot:
  assumes g: "race_inv f1 f2 n s" and w: "waiting f1 f2 n s" and q: "queue s = j # js"
    and t: "job_targets j \<inter> prot n = {}"
  shows "waiting f1 f2 n (tick s)"
proof -
  have st: "step_rel (prot n) (s\<lparr>queue := js\<rparr>) (tick s)"
    using q t prot_lt[OF g] by (rule step_tick_unprot)
  show ?thesis by (rule waiting_step[OF waiting_pop[OF w q t] st race_inv_pop[OF g q]])
qed

lemma waiting_protected_job:
  assumes g: "race_inv f1 f2 n s" and w: "waiting f1 f2 n s" and j: "j \<in> set (queue s)"
    and t: "job_targets j \<inter> prot n \<noteq> {}"
  shows "\<exists>i c. i < 2 \<and> j = reaction_job c (index_reaction n i)"
proof -
  from w have pe: "\<And>p. p \<in> prot n \<Longrightarrow> pstate (store s p) = Pending" unfolding waiting_def by blast
  from race_inv_queue_job[OF g j t] show ?thesis
  proof (cases rule: allowed_job_cases)
    case (idx i c)
    then show ?thesis by blast
  next
    case (race i c)
    then have "n + 1 + i \<in> prot n" by (auto simp: prot_def less_2_cases_iff)
    from pe[OF this] race show ?thesis by simp
  next
    case (await c)
    with pe[of "n + 3"] show ?thesis by (auto simp: prot_def)
  qed
qed

lemma waiting_leading:
  assumes g: "race_inv f1 f2 n s" and w: "waiting f1 f2 n s"
    and j: "reaction_job c (index_reaction n i) \<in> set (queue s)" and i: "i < 2"
  shows "\<exists>a k. a < 2 \<and> leading f1 f2 n a k s"
proof -
  let ?P = "\<lambda>j. job_targets j \<inter> prot n \<noteq> {}"
  have "?P (reaction_job c (index_reaction n i))"
    using i by (auto simp: index_job_targets prot_def)
  from heads_first[of _ s ?P "prot n", OF j this] obtain j' k where
    *: "?P j'" "heads (prot n) j' k s" by blast
  from *(2) have "j' \<in> set (queue s)" unfolding heads_def by auto
  from waiting_protected_job[OF g w this *(1)] obtain a c' where
    "a < 2" "j' = reaction_job c' (index_reaction n a)" by blast
  with * w show ?thesis unfolding leading_def by blast
qed

lemma leading_Suc_tick:
  assumes g: "race_inv f1 f2 n s" and l: "leading f1 f2 n a (Suc k) s"
  shows "leading f1 f2 n a k (tick s)"
proof -
  from l obtain c where w: "waiting f1 f2 n s"
    and h: "heads (prot n) (reaction_job c (index_reaction n a)) (Suc k) s"
    unfolding leading_def by blast
  from h obtain j0 js where q: "queue s = j0 # js" and t: "job_targets j0 \<inter> prot n = {}"
    and h': "heads (prot n) (reaction_job c (index_reaction n a)) k (s\<lparr>queue := js\<rparr>)"
    by (rule heads_Suc)
  have st: "step_rel (prot n) (s\<lparr>queue := js\<rparr>) (tick s)"
    using q t prot_lt[OF g] by (rule step_tick_unprot)
  from heads_step[OF h' st] waiting_tick_unprot[OF g w q t] show ?thesis
    unfolding leading_def by blast
qed

lemma guarded_settle_pending:
  assumes "pstate (store s p) = Pending" "\<not> resolved (store s p)"
  shows "queue (guarded_settle p c s) = queue s @ map (reaction_job c) (reactions (store s p))"
    and "next_id (guarded_settle p c s) = next_id s"
    and "pstate (store (guarded_settle p c s) q) = (if q = p then settled_as c else pstate (store s q))"
    and "reactions (store (guarded_settle p c s) q) = (if q = p then [] else reactions (store s q))"
  using assms by (simp_all add: guarded_settle_def)

lemma race_inv_unresolved: "race_inv f1 f2 n s \<Longrightarrow> p \<in> prot n \<Longrightarrow> pstate (store s p) = Pending \<Longrightarrow> \<not> resolved (store s p)"
  by (simp add: race_inv_def race_lock_def)

lemma trigger_first:
  assumes "rc \<in> set rs"
    and "\<And>rc'. rc' \<in> set rs \<Longrightarrow> rc' \<noteq> rc \<Longrightarrow> job_targets (reaction_job c rc') \<inter> Q = {}"
  shows "\<exists>pre post. map (reaction_job c) rs = pre @ reaction_job c rc # post \<and>
           (\<forall>j\<in>set pre. job_targets j \<inter> Q = {})"
proof -
  from split_list_first[OF assms(1)] obtain xs ys where *: "rs = xs @ rc # ys" "rc \<notin> set xs"
    by blast
  have "\<forall>j\<in>set (map (reaction_job c) xs). job_targets j \<inter> Q = {}"
    using * assms(2) by auto
  moreover have "map (reaction_job c) rs = map (reaction_job c) xs @ reaction_job c rc # map (reaction_job c) ys"
    using *(1) by simp
  ultimately show ?thesis by blast
qed

lemma heads_append:
  assumes "queue s = js @ pre @ j # post" "\<forall>j'\<in>set js. job_targets j' \<inter> Q = {}"
    "\<forall>j'\<in>set pre. job_targets j' \<inter> Q = {}"
  shows "\<exists>k. heads Q j k s"
proof -
  have "queue s = (js @ pre) @ j # post" using assms(1) by simp
  moreover have "\<forall>j'\<in>set (js @ pre). job_targets j' \<inter> Q = {}" using assms(2,3) by auto
  ultimately show ?thesis unfolding heads_def by blast
qed

lemma reaction_targets_prot:
  assumes g: "race_inv f1 f2 n s" and rc: "rc \<in> set (reactions (store s q))"
    and t: "job_targets (reaction_job c rc) \<inter> prot n \<noteq> {}"
  shows "allowed f1 f2 n q rc"
proof -
  from t job_targets_reaction_job[of c rc] have "reaction_targets rc \<inter> prot n \<noteq> {}" by blast
  with g rc show ?thesis unfolding race_inv_def race_store_def by blast
qed

lemma allowed_at_index_promise:
  assumes "allowed f1 f2 n (n + 1 + a) rc" "f1 < n" "f2 < n" "a < 2"
  shows "rc = race_reaction n a"
  using assms unfolding allowed_def by (auto simp: less_2_cases_iff)

lemma allowed_at_race_promise:
  assumes "allowed f1 f2 n (n + 3) rc" "f1 < n" "f2 < n"
  shows "rc = await_reaction f1 f2 n"
  using assms unfolding allowed_def by (auto simp: less_2_cases_iff)

lemma leading_0_tick:
  assumes g: "race_inv f1 f2 n s" and l: "leading f1 f2 n a 0 s" and a: "a < 2"
  shows "\<exists>k. observed f1 f2 n a k (tick s)"
proof -
  from l obtain c where w: "waiting f1 f2 n s"
    and h: "heads (prot n) (reaction_job c (index_reaction n a)) 0 s"
    unfolding leading_def by blast
  from heads_0[OF h] obtain post where q: "queue s = reaction_job c (index_reaction n a) # post"
    by blast
  let ?s0 = "s\<lparr>queue := post\<rparr>" and ?p = "n + 1 + a" and ?c = "index_result a c"
  from w have pe: "\<And>p. p \<in> prot n \<Longrightarrow> pstate (store s p) = Pending" unfolding waiting_def by blast
  have pin: "?p \<in> prot n" using a by (auto simp: prot_def less_2_cases_iff)
  have p0: "pstate (store ?s0 ?p) = Pending" using pe[OF pin] by simp
  have u0: "\<not> resolved (store ?s0 ?p)" using race_inv_unresolved[OF g pin pe[OF pin]] by simp
  have t: "tick s = guarded_settle ?p ?c ?s0"
    unfolding tick_Cons[OF q] run_index_job ..
  note gs = guarded_settle_pending[OF p0 u0, of ?c]
  from w a have rr: "race_reaction n a \<in> set (reactions (store s ?p))" unfolding waiting_def by blast
  from race_inv_bounds[OF g] have b: "f1 < n" "f2 < n" by simp_all
  have "\<exists>pre post'. map (reaction_job ?c) (reactions (store s ?p)) =
          pre @ reaction_job ?c (race_reaction n a) # post' \<and>
          (\<forall>j\<in>set pre. job_targets j \<inter> {n, n + 3} = {})"
  proof (rule trigger_first[OF rr])
    fix rc' assume rc': "rc' \<in> set (reactions (store s ?p))" "rc' \<noteq> race_reaction n a"
    show "job_targets (reaction_job ?c rc') \<inter> {n, n + 3} = {}"
    proof (rule ccontr)
      assume "job_targets (reaction_job ?c rc') \<inter> {n, n + 3} \<noteq> {}"
      then have "job_targets (reaction_job ?c rc') \<inter> prot n \<noteq> {}" by (auto simp: prot_def)
      from reaction_targets_prot[OF g rc'(1) this] have "allowed f1 f2 n ?p rc'" .
      from allowed_at_index_promise[OF this b a] rc'(2) show False by simp
    qed
  qed
  then obtain pre post' where m: "map (reaction_job ?c) (reactions (store s ?p)) =
          pre @ reaction_job ?c (race_reaction n a) # post'"
      and mp: "\<forall>j\<in>set pre. job_targets j \<inter> {n, n + 3} = {}" by blast
  have qt: "queue (tick s) = post @ pre @ reaction_job ?c (race_reaction n a) # post'"
    unfolding t gs(1) using m by simp
  have po: "\<forall>j'\<in>set post. job_targets j' \<inter> {n, n + 3} = {}"
  proof (intro ballI, rule ccontr)
    fix j' assume j': "j' \<in> set post" and "job_targets j' \<inter> {n, n + 3} \<noteq> {}"
    then have tt: "job_targets j' \<inter> {n, n + 3} \<noteq> {}" "job_targets j' \<inter> prot n \<noteq> {}"
      by (auto simp: prot_def)
    from j' q have "j' \<in> set (queue s)" by simp
    from waiting_protected_job[OF g w this tt(2)] obtain i c' where
      "i < 2" "j' = reaction_job c' (index_reaction n i)" by blast
    with tt(1) show False by (auto simp: index_job_targets)
  qed
  from heads_append[OF qt po mp] obtain k where
    hk: "heads {n, n + 3} (reaction_job ?c (race_reaction n a)) k (tick s)" by blast
  have "pstate (store (tick s) (n + 3)) = Pending" "pstate (store (tick s) n) = Pending"
    unfolding t gs(3) using a pe[of "n + 3"] pe[of n] by (auto simp: prot_def)
  moreover have "await_reaction f1 f2 n \<in> set (reactions (store (tick s) (n + 3)))"
    unfolding t gs(4) using a w unfolding waiting_def by auto
  ultimately show ?thesis using hk unfolding observed_def by blast
qed

lemma step_rel_subset: "step_rel Q s s' \<Longrightarrow> Q' \<subseteq> Q \<Longrightarrow> step_rel Q' s s'"
  unfolding step_rel_def by blast

lemma step_rel_settled:
  "step_rel Q s s' \<Longrightarrow> q < next_id s \<Longrightarrow> pstate (store s q) = settled_as c \<Longrightarrow>
   pstate (store s' q) = settled_as c"
  unfolding step_rel_def by (metis settled_as_not_Pending(1))

lemma tick_settled:
  assumes "q < next_id s" "pstate (store s q) = settled_as c"
  shows "pstate (store (tick s) q) = settled_as c"
proof (cases "queue s")
  case Nil
  with assms show ?thesis by (simp add: tick_def)
next
  case (Cons j js)
  have "step_rel {} (s\<lparr>queue := js\<rparr>) (tick s)"
    using Cons by (rule step_tick_unprot) auto
  from step_rel_settled[OF this] assms show ?thesis by simp
qed

lemma tick_next_id: "next_id s \<le> next_id (tick s)"
proof (cases "queue s")
  case Nil
  then show ?thesis by (simp add: tick_def)
next
  case (Cons j js)
  have "step_rel {} (s\<lparr>queue := js\<rparr>) (tick s)"
    using Cons by (rule step_tick_unprot) auto
  then show ?thesis by (simp add: step_rel_def)
qed

lemma observed_step:
  assumes "observed f1 f2 n a k s" "step_rel {n, n + 3} s s'"
  shows "observed f1 f2 n a k s'"
proof -
  from assms(2) have p: "\<And>p. p \<in> {n, n + 3} \<Longrightarrow> pstate (store s' p) = pstate (store s p)"
    and r: "\<And>p rc. p \<in> {n, n + 3} \<Longrightarrow> rc \<in> set (reactions (store s p)) \<Longrightarrow>
              rc \<in> set (reactions (store s' p))"
    unfolding step_rel_def by auto
  from assms(1) obtain c where h: "heads {n, n + 3} (reaction_job c (race_reaction n a)) k s"
    and o: "pstate (store s (n + 3)) = Pending" "pstate (store s n) = Pending"
      "await_reaction f1 f2 n \<in> set (reactions (store s (n + 3)))"
    unfolding observed_def by blast
  from heads_step[OF h assms(2)] o p[of n] p[of "n + 3"] r[of "n + 3", OF _ o(3)]
  show ?thesis unfolding observed_def by auto
qed

lemma observed_pop:
  "observed f1 f2 n a k (s\<lparr>queue := js\<rparr>) \<longleftrightarrow>
   pstate (store s (n + 3)) = Pending \<and> pstate (store s n) = Pending \<and>
   await_reaction f1 f2 n \<in> set (reactions (store s (n + 3))) \<and>
   (\<exists>c. heads {n, n + 3} (reaction_job c (race_reaction n a)) k (s\<lparr>queue := js\<rparr>))"
  by (simp add: observed_def)

lemma observed_Suc_tick:
  assumes g: "race_inv f1 f2 n s" and o: "observed f1 f2 n a (Suc k) s"
  shows "observed f1 f2 n a k (tick s)"
proof -
  from o obtain c where h: "heads {n, n + 3} (reaction_job c (race_reaction n a)) (Suc k) s"
    and o': "pstate (store s (n + 3)) = Pending" "pstate (store s n) = Pending"
      "await_reaction f1 f2 n \<in> set (reactions (store s (n + 3)))"
    unfolding observed_def by blast
  from h obtain j0 js where q: "queue s = j0 # js" and t: "job_targets j0 \<inter> {n, n + 3} = {}"
    and h': "heads {n, n + 3} (reaction_job c (race_reaction n a)) k (s\<lparr>queue := js\<rparr>)"
    by (rule heads_Suc)
  have lt: "\<forall>p\<in>{n, n + 3}. p < next_id s" using race_inv_bounds[OF g] by auto
  have st: "step_rel {n, n + 3} (s\<lparr>queue := js\<rparr>) (tick s)"
    using q t lt by (rule step_tick_unprot)
  have "observed f1 f2 n a k (s\<lparr>queue := js\<rparr>)"
    unfolding observed_pop using o' h' by blast
  then show ?thesis using st by (rule observed_step)
qed

lemma raced_step:
  assumes "raced f1 f2 n k s" "step_rel {n} s s'"
  shows "raced f1 f2 n k s'"
proof -
  from assms(2) have p: "pstate (store s' n) = pstate (store s n)"
    unfolding step_rel_def by auto
  from assms(1) obtain c where h: "heads {n} (reaction_job c (await_reaction f1 f2 n)) k s"
    and o: "pstate (store s n) = Pending"
    unfolding raced_def by blast
  from heads_step[OF h assms(2)] o p show ?thesis unfolding raced_def by auto
qed

lemma not_in_iff: "n \<notin> A \<longleftrightarrow> A \<inter> {n} = {}"
  by auto

lemma raced_Suc_tick:
  assumes g: "race_inv f1 f2 n s" and o: "raced f1 f2 n (Suc k) s"
  shows "raced f1 f2 n k (tick s)"
proof -
  from o obtain c where h: "heads {n} (reaction_job c (await_reaction f1 f2 n)) (Suc k) s"
    and o': "pstate (store s n) = Pending"
    unfolding raced_def by blast
  from h obtain j0 js where q: "queue s = j0 # js" and t: "job_targets j0 \<inter> {n} = {}"
    and h': "heads {n} (reaction_job c (await_reaction f1 f2 n)) k (s\<lparr>queue := js\<rparr>)"
    by (rule heads_Suc)
  have lt: "\<forall>p\<in>{n}. p < next_id s" using race_inv_bounds[OF g] by auto
  have st: "step_rel {n} (s\<lparr>queue := js\<rparr>) (tick s)"
    using q t lt by (rule step_tick_unprot)
  have "raced f1 f2 n k (s\<lparr>queue := js\<rparr>)"
    unfolding raced_def using o' h' by auto
  then show ?thesis using st by (rule raced_step)
qed

lemma won_step:
  assumes "won f1 f2 n a s" "step_rel Q s s'" "race_inv f1 f2 n s" "a < 2"
  shows "won f1 f2 n a s'"
proof -
  from assms(1) obtain c0 where c0: "pstate (store s ([f1, f2] ! a)) = settled_as c0"
    "pstate (store s (n + 1 + a)) = settled_as (index_result a c0)"
    "pstate (store s (n + 3)) = settled_as (index_result a c0)"
    unfolding won_def by blast
  have "[f1, f2] ! a < next_id s" "n + 1 + a < next_id s" "n + 3 < next_id s"
    using input_lt[OF assms(3,4)] race_inv_bounds[OF assms(3)] assms(4) by simp_all
  from step_rel_settled[OF assms(2) this(1) c0(1)] step_rel_settled[OF assms(2) this(2) c0(2)]
    step_rel_settled[OF assms(2) this(3) c0(3)]
  show ?thesis unfolding won_def by blast
qed

lemma won_tick:
  assumes "won f1 f2 n a s" "race_inv f1 f2 n s" "a < 2"
  shows "won f1 f2 n a (tick s)"
proof -
  from assms(1) obtain c0 where c0: "pstate (store s ([f1, f2] ! a)) = settled_as c0"
    "pstate (store s (n + 1 + a)) = settled_as (index_result a c0)"
    "pstate (store s (n + 3)) = settled_as (index_result a c0)"
    unfolding won_def by blast
  have "[f1, f2] ! a < next_id s" "n + 1 + a < next_id s" "n + 3 < next_id s"
    using input_lt[OF assms(2,3)] race_inv_bounds[OF assms(2)] assms(3) by simp_all
  from tick_settled[OF this(1) c0(1)] tick_settled[OF this(2) c0(2)] tick_settled[OF this(3) c0(3)]
  show ?thesis unfolding won_def by blast
qed

lemma decided_step:
  assumes "decided f1 f2 n a s" "step_rel Q s s'" "race_inv f1 f2 n s" "a < 2"
  shows "decided f1 f2 n a s'"
proof -
  from assms(1) obtain c0 where c0: "pstate (store s ([f1, f2] ! a)) = settled_as c0"
    "pstate (store s (n + 1 + a)) = settled_as (index_result a c0)"
    "pstate (store s (n + 3)) = settled_as (index_result a c0)"
    "pstate (store s n) = settled_as (race_result f1 f2 (index_result a c0))"
    unfolding decided_def by blast
  have "[f1, f2] ! a < next_id s" "n + 1 + a < next_id s" "n + 3 < next_id s" "n < next_id s"
    using input_lt[OF assms(3,4)] race_inv_bounds[OF assms(3)] assms(4) by simp_all
  from step_rel_settled[OF assms(2) this(1) c0(1)] step_rel_settled[OF assms(2) this(2) c0(2)]
    step_rel_settled[OF assms(2) this(3) c0(3)] step_rel_settled[OF assms(2) this(4) c0(4)]
  show ?thesis unfolding decided_def by blast
qed

lemma decided_tick:
  assumes "decided f1 f2 n a s" "race_inv f1 f2 n s" "a < 2"
  shows "decided f1 f2 n a (tick s)"
proof -
  from assms(1) obtain c0 where c0: "pstate (store s ([f1, f2] ! a)) = settled_as c0"
    "pstate (store s (n + 1 + a)) = settled_as (index_result a c0)"
    "pstate (store s (n + 3)) = settled_as (index_result a c0)"
    "pstate (store s n) = settled_as (race_result f1 f2 (index_result a c0))"
    unfolding decided_def by blast
  have "[f1, f2] ! a < next_id s" "n + 1 + a < next_id s" "n + 3 < next_id s" "n < next_id s"
    using input_lt[OF assms(2,3)] race_inv_bounds[OF assms(2)] assms(3) by simp_all
  from tick_settled[OF this(1) c0(1)] tick_settled[OF this(2) c0(2)] tick_settled[OF this(3) c0(3)]
    tick_settled[OF this(4) c0(4)]
  show ?thesis unfolding decided_def by blast
qed

lemma observed_0_tick:
  assumes g: "race_inv f1 f2 n s" and o: "observed f1 f2 n a 0 s" and a: "a < 2"
  shows "won f1 f2 n a (tick s) \<and> (\<exists>k. raced f1 f2 n k (tick s))"
proof -
  from o obtain c where h: "heads {n, n + 3} (reaction_job c (race_reaction n a)) 0 s"
    and pr: "pstate (store s (n + 3)) = Pending" and pn: "pstate (store s n) = Pending"
    and aw: "await_reaction f1 f2 n \<in> set (reactions (store s (n + 3)))"
    unfolding observed_def by blast
  from heads_0[OF h] obtain post where q: "queue s = reaction_job c (race_reaction n a) # post"
    by blast
  then have "reaction_job c (race_reaction n a) \<in> set (queue s)" by simp
  from race_inv_race_job[OF g this a] have ip: "pstate (store s (n + 1 + a)) = settled_as c" .
  from race_inv_index_settled[OF g a ip] obtain c0 where
    c0: "pstate (store s ([f1, f2] ! a)) = settled_as c0" "c = index_result a c0" by blast
  have pl: "\<And>v. c = Normal v \<Longrightarrow> plain_value v" using c0(2) by (cases c0) auto
  from race_inv_bounds[OF g] have b: "f1 < n" "f2 < n" "n + 3 < next_id s" by simp_all
  let ?s0 = "s\<lparr>queue := post\<rparr>"
  let ?s1 = "guarded_settle (n + 3) c ?s0"
  have rin: "n + 3 \<in> prot n" by (simp add: prot_def)
  have p0: "pstate (store ?s0 (n + 3)) = Pending" using pr by simp
  have u0: "\<not> resolved (store ?s0 (n + 3))" using race_inv_unresolved[OF g rin pr] by simp
  note gs = guarded_settle_pending[OF p0 u0, of c]
  have t: "tick s = resolve_fn (n + 4 + a) Undefined ?s1"
    unfolding tick_Cons[OF q] by (rule run_race_job) (rule pl)
  have "\<exists>pre post'. map (reaction_job c) (reactions (store s (n + 3))) =
          pre @ reaction_job c (await_reaction f1 f2 n) # post' \<and>
          (\<forall>j\<in>set pre. job_targets j \<inter> {n} = {})"
  proof (rule trigger_first[OF aw])
    fix rc' assume rc': "rc' \<in> set (reactions (store s (n + 3)))" "rc' \<noteq> await_reaction f1 f2 n"
    show "job_targets (reaction_job c rc') \<inter> {n} = {}"
    proof (rule ccontr)
      assume "job_targets (reaction_job c rc') \<inter> {n} \<noteq> {}"
      then have "job_targets (reaction_job c rc') \<inter> prot n \<noteq> {}" by (auto simp: prot_def)
      from reaction_targets_prot[OF g rc'(1) this] have "allowed f1 f2 n (n + 3) rc'" .
      from allowed_at_race_promise[OF this b(1,2)] rc'(2) show False by simp
    qed
  qed
  then obtain pre post' where m: "map (reaction_job c) (reactions (store s (n + 3))) =
          pre @ reaction_job c (await_reaction f1 f2 n) # post'"
      and mp: "\<forall>j\<in>set pre. job_targets j \<inter> {n} = {}" by blast
  have q1: "queue ?s1 = post @ pre @ reaction_job c (await_reaction f1 f2 n) # post'"
    unfolding gs(1) using m by simp
  have po: "\<forall>j'\<in>set post. job_targets j' \<inter> {n} = {}"
  proof (intro ballI, rule ccontr)
    fix j' assume j': "j' \<in> set post" and "job_targets j' \<inter> {n} \<noteq> {}"
    then have tt: "n \<in> job_targets j'" "job_targets j' \<inter> prot n \<noteq> {}"
      by (auto simp: prot_def)
    from j' q have "j' \<in> set (queue s)" by simp
    from race_inv_queue_job[OF g this tt(2)] show False
    proof (cases rule: allowed_job_cases)
      case (idx i c')
      with tt(1) show False by (simp add: index_job_targets)
    next
      case (race i c')
      with tt(1) show False by (simp add: race_job_targets)
    next
      case (await c')
      with pr show False by simp
    qed
  qed
  from heads_append[OF q1 po mp] obtain k where
    hk: "heads {n} (reaction_job c (await_reaction f1 f2 n)) k ?s1" by blast
  have "pstate (store ?s1 n) = Pending" unfolding gs(3) using pn by simp
  with hk have r1: "raced f1 f2 n k ?s1" unfolding raced_def by blast
  have st: "step_rel {n} ?s1 (tick s)" unfolding t by (rule step_resolve_fn) simp
  from raced_step[OF r1 st] have R: "\<exists>k. raced f1 f2 n k (tick s)" by blast
  have x1: "pstate (store ?s1 ([f1, f2] ! a)) = settled_as c0"
    unfolding gs(3) using c0(1) input_lt[OF g a] by simp
  have r1: "pstate (store ?s1 (n + 3)) = settled_as (index_result a c0)"
    unfolding gs(3) using c0(2) by simp
  have i1: "pstate (store ?s1 (n + 1 + a)) = settled_as (index_result a c0)"
    unfolding gs(3) using c0(2) ip a by simp
  have lt: "[f1, f2] ! a < next_id ?s1" "n + 3 < next_id ?s1" "n + 1 + a < next_id ?s1"
    unfolding gs(2) using input_lt[OF g a] b a by simp_all
  from step_rel_settled[OF st lt(1) x1] step_rel_settled[OF st lt(2) r1]
    step_rel_settled[OF st lt(3) i1]
  have "won f1 f2 n a (tick s)" unfolding won_def by blast
  with R show ?thesis by blast
qed

lemma raced_0_tick:
  assumes g: "race_inv f1 f2 n s" and w: "won f1 f2 n a s" and r: "raced f1 f2 n 0 s" and a: "a < 2"
  shows "decided f1 f2 n a (tick s)"
proof -
  from r obtain c where h: "heads {n} (reaction_job c (await_reaction f1 f2 n)) 0 s"
    and pn: "pstate (store s n) = Pending"
    unfolding raced_def by blast
  from heads_0[OF h] obtain post where q: "queue s = reaction_job c (await_reaction f1 f2 n) # post"
    by blast
  then have "reaction_job c (await_reaction f1 f2 n) \<in> set (queue s)" by simp
  from race_inv_await_job[OF g this] have rc: "pstate (store s (n + 3)) = settled_as c" .
  from w obtain c0 where c0: "pstate (store s ([f1, f2] ! a)) = settled_as c0"
    "pstate (store s (n + 3)) = settled_as (index_result a c0)"
    "pstate (store s (n + 1 + a)) = settled_as (index_result a c0)"
    unfolding won_def by blast
  from rc c0(2) have c: "c = index_result a c0" by simp
  let ?s0 = "s\<lparr>queue := post\<rparr>"
  have nin: "n \<in> prot n" by (simp add: prot_def)
  have p0: "pstate (store ?s0 n) = Pending" using pn by simp
  have u0: "\<not> resolved (store ?s0 n)" using race_inv_unresolved[OF g nin pn] by simp
  note gs = guarded_settle_pending[OF p0 u0, of "race_result f1 f2 c"]
  have t: "tick s = guarded_settle n (race_result f1 f2 c) ?s0"
    unfolding tick_Cons[OF q] run_await_job ..
  have "pstate (store (tick s) ([f1, f2] ! a)) = settled_as c0"
    unfolding t gs(3) using c0(1) input_lt[OF g a] by simp
  moreover have "pstate (store (tick s) (n + 3)) = settled_as (index_result a c0)"
    unfolding t gs(3) using c0(2) by simp
  moreover have "pstate (store (tick s) (n + 1 + a)) = settled_as (index_result a c0)"
    unfolding t gs(3) using c0(3) by simp
  moreover have "pstate (store (tick s) n) = settled_as (race_result f1 f2 (index_result a c0))"
    unfolding t gs(3) using c by simp
  ultimately show ?thesis unfolding decided_def by blast
qed

text \<open>
  Progress: from every phase the race reaches its decision after finitely many turns of
  the job queue, by induction on the position of the job that is due.
\<close>

lemma race_inv_ticks: "race_inv f1 f2 n s \<Longrightarrow> race_inv f1 f2 n (ticks m s)"
  by (induction m arbitrary: s) (simp_all add: race_inv_tick)

lemma ticks_add: "ticks (m + k) s = ticks k (ticks m s)"
  by (induction m arbitrary: s) simp_all

lemma decided_ticks:
  "decided f1 f2 n a s \<Longrightarrow> race_inv f1 f2 n s \<Longrightarrow> a < 2 \<Longrightarrow> decided f1 f2 n a (ticks m s)"
  by (induction m arbitrary: s) (simp_all add: decided_tick race_inv_tick)

lemma raced_decides:
  assumes "race_inv f1 f2 n s" "won f1 f2 n a s" "raced f1 f2 n k s" "a < 2"
  shows "decided f1 f2 n a (ticks (Suc k) s)"
  using assms
proof (induction k arbitrary: s)
  case 0
  then show ?case by (simp add: raced_0_tick)
next
  case (Suc k)
  from Suc.IH[OF race_inv_tick[OF Suc.prems(1)] won_tick[OF Suc.prems(2,1,4)]
      raced_Suc_tick[OF Suc.prems(1,3)] Suc.prems(4)]
  show ?case by simp
qed

lemma observed_decides:
  assumes "race_inv f1 f2 n s" "observed f1 f2 n a k s" "a < 2"
  shows "\<exists>m. decided f1 f2 n a (ticks m s)"
  using assms
proof (induction k arbitrary: s)
  case 0
  from observed_0_tick[OF 0] obtain k' where
    "won f1 f2 n a (tick s)" "raced f1 f2 n k' (tick s)" by blast
  from raced_decides[OF race_inv_tick[OF 0(1)] this 0(3)]
  have "decided f1 f2 n a (ticks (Suc (Suc k')) s)" by simp
  then show ?case by blast
next
  case (Suc k)
  from Suc.IH[OF race_inv_tick[OF Suc.prems(1)] observed_Suc_tick[OF Suc.prems(1,2)] Suc.prems(3)]
  obtain m where "decided f1 f2 n a (ticks (Suc m) s)" by auto
  then show ?case by blast
qed

lemma leading_decides:
  assumes "race_inv f1 f2 n s" "leading f1 f2 n a k s" "a < 2"
  shows "\<exists>m. decided f1 f2 n a (ticks m s)"
  using assms
proof (induction k arbitrary: s)
  case 0
  from leading_0_tick[OF 0] obtain k' where "observed f1 f2 n a k' (tick s)" by blast
  from observed_decides[OF race_inv_tick[OF 0(1)] this 0(3)]
  obtain m where "decided f1 f2 n a (ticks (Suc m) s)" by auto
  then show ?case by blast
next
  case (Suc k)
  from Suc.IH[OF race_inv_tick[OF Suc.prems(1)] leading_Suc_tick[OF Suc.prems(1,2)] Suc.prems(3)]
  obtain m where "decided f1 f2 n a (ticks (Suc m) s)" by auto
  then show ?case by blast
qed

lemma stage_decides:
  assumes "race_inv f1 f2 n s" "stage f1 f2 n a s" "a < 2"
  shows "\<exists>m. decided f1 f2 n a (ticks m s)"
proof -
  from assms(2) consider k where "leading f1 f2 n a k s" | k where "observed f1 f2 n a k s"
    | k where "won f1 f2 n a s" "raced f1 f2 n k s" | "decided f1 f2 n a s"
    unfolding stage_def by blast
  then show ?thesis
  proof cases
    case 1
    then show ?thesis using leading_decides assms by blast
  next
    case 2
    then show ?thesis using observed_decides assms by blast
  next
    case 3
    then show ?thesis using raced_decides assms by blast
  next
    case 4
    then have "decided f1 f2 n a (ticks 0 s)" by simp
    then show ?thesis by blast
  qed
qed

text \<open>
  Stability: events of the environment keep the phase of a race, and a settled promise
  stays as it is for ever.
\<close>

lemma step_event:
  assumes "e \<noteq> Tick" "event_targets e \<inter> Q = {}" "\<forall>p\<in>Q. p < next_id s"
    "\<forall>t\<in>set (timers s). cb_targets (snd t) \<inter> Q = {}"
  shows "step_rel Q s (apply_event e s)"
proof (cases e)
  case Tick
  with assms(1) show ?thesis by simp
next
  case (Fire i)
  from step_fire[of Q s i] assms(4) show ?thesis unfolding Fire by auto
next
  case (Call cb v)
  with assms(2) show ?thesis by (simp add: step_run_callback)
next
  case New
  with assms(3) show ?thesis by (simp add: step_new_promise)
next
  case (Then p f r)
  with assms(3) show ?thesis using step_then_call[of Q s p f r] by simp
next
  case (Await p f r)
  then show ?thesis by (simp add: await_Builtin step_perform_then)
next
  case (SetTimeout cb ms)
  then show ?thesis by (simp add: step_set_timeout)
qed

lemma event_settled:
  assumes "q < next_id s" "pstate (store s q) = settled_as c"
  shows "pstate (store (apply_event e s) q) = settled_as c"
proof (cases "e = Tick")
  case True
  with assms show ?thesis by (simp add: tick_settled)
next
  case False
  have "step_rel {} s (apply_event e s)" using False by (rule step_event) auto
  from step_rel_settled[OF this assms] show ?thesis .
qed

lemma event_next_id: "next_id s \<le> next_id (apply_event e s)"
proof (cases "e = Tick")
  case True
  then show ?thesis by (simp add: tick_next_id)
next
  case False
  have "step_rel {} s (apply_event e s)" using False by (rule step_event) auto
  then show ?thesis by (simp add: step_rel_def)
qed

lemma events_settled:
  "q < next_id s \<Longrightarrow> pstate (store s q) = settled_as c \<Longrightarrow>
   pstate (store (run_events es s) q) = settled_as c"
proof (induction es arbitrary: s)
  case Nil
  then show ?case by simp
next
  case (Cons e es)
  from Cons.prems(1) event_next_id[of s e] have "q < next_id (apply_event e s)" by simp
  from Cons.IH[OF this event_settled[OF Cons.prems]] show ?case by simp
qed

lemma ticks_events: "ticks m s = run_events (replicate m Tick) s"
  by (induction m arbitrary: s) simp_all

lemma race_inv_step_event:
  assumes g: "race_inv f1 f2 n s" and e: "e \<noteq> Tick" "event_targets e \<inter> prot n = {}"
  shows "step_rel (prot n) s (apply_event e s)"
  using e prot_lt[OF g]
proof (rule step_event)
  from g show "\<forall>t\<in>set (timers s). cb_targets (snd t) \<inter> prot n = {}"
    by (simp add: race_inv_def race_timers_def)
qed

lemma leading_step:
  assumes "leading f1 f2 n a k s" "step_rel (prot n) s s'" "race_inv f1 f2 n s"
  shows "leading f1 f2 n a k s'"
  using assms unfolding leading_def by (auto intro: waiting_step heads_step)

lemma stage_event:
  assumes g: "race_inv f1 f2 n s" and st: "stage f1 f2 n a s" and a: "a < 2"
    and e: "event_targets e \<inter> prot n = {}"
  shows "stage f1 f2 n a (apply_event e s)"
proof (cases "e = Tick")
  case True
  from st consider k where "leading f1 f2 n a k s" | k where "observed f1 f2 n a k s"
    | k where "won f1 f2 n a s" "raced f1 f2 n k s" | "decided f1 f2 n a s"
    unfolding stage_def by blast
  then have "stage f1 f2 n a (tick s)"
  proof cases
    case 1
    show ?thesis
    proof (cases k)
      case 0
      with 1 leading_0_tick[OF g _ a] show ?thesis unfolding stage_def by blast
    next
      case (Suc k')
      with 1 leading_Suc_tick[OF g] show ?thesis unfolding stage_def by blast
    qed
  next
    case 2
    show ?thesis
    proof (cases k)
      case 0
      with 2 observed_0_tick[OF g _ a] show ?thesis unfolding stage_def by blast
    next
      case (Suc k')
      with 2 observed_Suc_tick[OF g] show ?thesis unfolding stage_def by blast
    qed
  next
    case 3
    show ?thesis
    proof (cases k)
      case 0
      with 3 raced_0_tick[OF g _ _ a] show ?thesis unfolding stage_def by blast
    next
      case (Suc k')
      with 3 raced_Suc_tick[OF g] won_tick[OF _ g a] show ?thesis unfolding stage_def by blast
    qed
  next
    case 4
    with decided_tick[OF _ g a] show ?thesis unfolding stage_def by blast
  qed
  with True show ?thesis by simp
next
  case False
  from race_inv_step_event[OF g False e] have sr: "step_rel (prot n) s (apply_event e s)" .
  then have sr2: "step_rel {n, n + 3} s (apply_event e s)" "step_rel {n} s (apply_event e s)"
    by (auto intro: step_rel_subset simp: prot_def)
  from st consider k where "leading f1 f2 n a k s" | k where "observed f1 f2 n a k s"
    | k where "won f1 f2 n a s" "raced f1 f2 n k s" | "decided f1 f2 n a s"
    unfolding stage_def by blast
  then show ?thesis
  proof cases
    case 1
    from leading_step[OF 1 sr g] show ?thesis unfolding stage_def by blast
  next
    case 2
    from observed_step[OF 2 sr2(1)] show ?thesis unfolding stage_def by blast
  next
    case 3
    from won_step[OF 3(1) sr g a] raced_step[OF 3(2) sr2(2)] show ?thesis
      unfolding stage_def by blast
  next
    case 4
    from decided_step[OF 4 sr g a] show ?thesis unfolding stage_def by blast
  qed
qed

lemma stage_events:
  "race_inv f1 f2 n s \<Longrightarrow> stage f1 f2 n a s \<Longrightarrow> a < 2 \<Longrightarrow> outside (prot n) es \<Longrightarrow>
   stage f1 f2 n a (run_events es s)"
proof (induction es arbitrary: s)
  case Nil
  then show ?case by simp
next
  case (Cons e es)
  from Cons.prems(4) have e: "event_targets e \<inter> prot n = {}" and es: "outside (prot n) es"
    by (simp_all add: outside_def)
  from Cons.IH[OF race_inv_event[OF Cons.prems(1) e] stage_event[OF Cons.prems(1,2,3) e] Cons.prems(3) es]
  show ?case by simp
qed

lemma racing_event:
  assumes g: "race_inv f1 f2 n s" and r: "racing f1 f2 n s" and e: "event_targets e \<inter> prot n = {}"
  shows "racing f1 f2 n (apply_event e s)"
proof (cases "waiting f1 f2 n s")
  case False
  with r obtain a where "a < 2" "stage f1 f2 n a s" unfolding racing_def by blast
  with stage_event[OF g _ _ e] show ?thesis unfolding racing_def by blast
next
  case w: True
  show ?thesis
  proof (cases "e = Tick")
    case False
    from waiting_step[OF w race_inv_step_event[OF g False e] g] show ?thesis unfolding racing_def by blast
  next
    case True
    show ?thesis
    proof (cases "queue s")
      case Nil
      with w True show ?thesis unfolding racing_def by (simp add: tick_def)
    next
      case (Cons j js)
      show ?thesis
      proof (cases "job_targets j \<inter> prot n = {}")
        case t: True
        from waiting_tick_unprot[OF g w Cons t] True show ?thesis unfolding racing_def by simp
      next
        case t: False
        from Cons have "j \<in> set (queue s)" by simp
        from waiting_protected_job[OF g w this t] obtain a c where
          a: "a < 2" "j = reaction_job c (index_reaction n a)" by blast
        have "heads (prot n) (reaction_job c (index_reaction n a)) 0 s"
          unfolding heads_def using Cons a(2) by auto
        with w have "leading f1 f2 n a 0 s" unfolding leading_def by blast
        from leading_0_tick[OF g this a(1)] a(1) True show ?thesis
          unfolding racing_def stage_def by auto
      qed
    qed
  qed
qed

lemma racing_events:
  "race_inv f1 f2 n s \<Longrightarrow> racing f1 f2 n s \<Longrightarrow> outside (prot n) es \<Longrightarrow>
   racing f1 f2 n (run_events es s)"
proof (induction es arbitrary: s)
  case Nil
  then show ?case by simp
next
  case (Cons e es)
  from Cons.prems(3) have e: "event_targets e \<inter> prot n = {}" and es: "outside (prot n) es"
    by (simp_all add: outside_def)
  from Cons.IH[OF race_inv_event[OF Cons.prems(1) e] racing_event[OF Cons.prems(1,2) e] es]
  show ?case by simp
qed

lemma waiting_race_setup:
  assumes bd: "f1 < next_id s" "f2 < next_id s"
  shows "waiting f1 f2 (next_id s) (race_setup f1 f2 s)"
proof -
  let ?n = "next_id s" and ?s = "race_setup f1 f2 s"
  have 1: "\<forall>p\<in>prot ?n. pstate (store ?s p) = Pending"
    by (auto simp: race_setup_pstate prot_def)
  have 2: "\<forall>i<2. race_reaction ?n i \<in> set (reactions (store ?s (?n + 1 + i)))"
    by (auto simp: race_setup_reactions[OF bd] less_2_cases_iff)
  have 3: "await_reaction f1 f2 ?n \<in> set (reactions (store ?s (?n + 3)))"
    by (simp add: race_setup_reactions[OF bd])
  have x: "\<And>f (i::nat). f < ?n \<Longrightarrow> (f = f1 \<and> i = 0) \<or> (f = f2 \<and> i = 1) \<Longrightarrow>
      (pstate (store ?s f) = Pending \<and> index_reaction ?n i \<in> set (reactions (store ?s f))) \<or>
      (\<exists>c. reaction_job c (index_reaction ?n i) \<in> set (queue ?s))"
  proof -
    fix f and i :: nat assume f: "f < ?n" and fi: "(f = f1 \<and> i = 0) \<or> (f = f2 \<and> i = 1)"
    show "(pstate (store ?s f) = Pending \<and> index_reaction ?n i \<in> set (reactions (store ?s f))) \<or>
      (\<exists>c. reaction_job c (index_reaction ?n i) \<in> set (queue ?s))"
    proof (cases "pstate (store s f) = Pending")
      case True
      with f fi show ?thesis
        by (auto simp: race_setup_pstate race_setup_reactions[OF bd])
    next
      case False
      from settled_as_cases[OF this] obtain c where "pstate (store s f) = settled_as c" by blast
      then have "reaction_job c (index_reaction ?n i) \<in> set (settled_jobs (pstate (store s f)) (index_reaction ?n i))"
        by (auto simp: in_settled_jobs)
      with fi show ?thesis unfolding race_setup_queue[OF bd] by auto
    qed
  qed
  have 4: "\<forall>i<2. (pstate (store ?s ([f1, f2] ! i)) = Pending \<and>
             index_reaction ?n i \<in> set (reactions (store ?s ([f1, f2] ! i)))) \<or>
            (\<exists>c. reaction_job c (index_reaction ?n i) \<in> set (queue ?s))"
    using x[of f1 0] x[of f2 1] bd by (auto simp: less_2_cases_iff)
  from 1 2 3 4 show ?thesis unfolding waiting_def by blast
qed

lemma stage_settled:
  assumes g: "race_inv f1 f2 n s" and st: "stage f1 f2 n a s" and a: "a < 2"
  shows "pstate (store s ([f1, f2] ! a)) \<noteq> Pending"
proof -
  from st consider k where "leading f1 f2 n a k s" | k where "observed f1 f2 n a k s"
    | "won f1 f2 n a s" | "decided f1 f2 n a s"
    unfolding stage_def by blast
  then show ?thesis
  proof cases
    case 1
    then obtain c where "heads (prot n) (reaction_job c (index_reaction n a)) k s"
      unfolding leading_def by blast
    then have "reaction_job c (index_reaction n a) \<in> set (queue s)" unfolding heads_def by auto
    from race_inv_index_job[OF g this a] show ?thesis by simp
  next
    case 2
    then obtain c where "heads {n, n + 3} (reaction_job c (race_reaction n a)) k s"
      unfolding observed_def by blast
    then have "reaction_job c (race_reaction n a) \<in> set (queue s)" unfolding heads_def by auto
    from race_inv_index_settled[OF g a race_inv_race_job[OF g this a]] show ?thesis by auto
  next
    case 3
    then show ?thesis unfolding won_def by auto
  next
    case 4
    then show ?thesis unfolding decided_def by auto
  qed
qed

lemma racing_stage:
  assumes g: "race_inv f1 f2 n s" and r: "racing f1 f2 n s" and a: "a < 2"
    and A: "pstate (store s ([f1, f2] ! a)) \<noteq> Pending"
    and B: "pstate (store s ([f1, f2] ! (1 - a))) = Pending"
  shows "stage f1 f2 n a s"
proof -
  have other: "\<And>a'. a' < 2 \<Longrightarrow> pstate (store s ([f1, f2] ! a')) \<noteq> Pending \<Longrightarrow> a' = a"
  proof (rule ccontr)
    fix a' :: nat assume "a' < 2" "pstate (store s ([f1, f2] ! a')) \<noteq> Pending" "a' \<noteq> a"
    with a have "a' = 1 - a" by auto
    with B \<open>pstate (store s ([f1, f2] ! a')) \<noteq> Pending\<close> show False by simp
  qed
  from r show ?thesis unfolding racing_def
  proof
    assume w: "waiting f1 f2 n s"
    with a A obtain c where "reaction_job c (index_reaction n a) \<in> set (queue s)"
      unfolding waiting_def by blast
    from waiting_leading[OF g w this a] obtain a' k where l: "a' < 2" "leading f1 f2 n a' k s"
      by blast
    then have "stage f1 f2 n a' s" unfolding stage_def by blast
    from other[OF l(1) stage_settled[OF g this l(1)]] l(2) show ?thesis
      unfolding stage_def by blast
  next
    assume "\<exists>a<2. stage f1 f2 n a s"
    then obtain a' where l: "a' < 2" "stage f1 f2 n a' s" by blast
    from other[OF l(1) stage_settled[OF g l(2,1)]] l(2) show ?thesis by simp
  qed
qed

lemma stage_result:
  assumes "stage f1 f2 n a s"
  shows "pstate (store s n) = Pending \<or> decided f1 f2 n a s"
proof -
  from assms consider k where "leading f1 f2 n a k s" | k where "observed f1 f2 n a k s"
    | k where "raced f1 f2 n k s" | "decided f1 f2 n a s"
    unfolding stage_def by blast
  then show ?thesis
  proof cases
    case 1
    then show ?thesis unfolding leading_def waiting_def prot_def by auto
  next
    case 2
    then show ?thesis unfolding observed_def by auto
  next
    case 3
    then show ?thesis unfolding raced_def by auto
  next
    case 4
    then show ?thesis by simp
  qed
qed

lemma run_events_append: "run_events (es @ es') s = run_events es' (run_events es s)"
  by (induction es arbitrary: s) simp_all

lemma outside_append: "outside P (es @ es') \<longleftrightarrow> outside P es \<and> outside P es'"
  by (auto simp: outside_def)

lemma racing_after_events:
  assumes "well_formed s" "f1 < next_id s" "f2 < next_id s" "outside (prot (next_id s)) es"
  shows "racing f1 f2 (next_id s) (run_events es (race_setup f1 f2 s))"
  using race_inv_race_setup[OF assms(1-3)] waiting_race_setup[OF assms(2,3)] assms(4)
  by (intro racing_events) (auto simp: racing_def)

lemma race_inv_after_setup_events:
  assumes "well_formed s" "f1 < next_id s" "f2 < next_id s" "outside (prot (next_id s)) es"
  shows "race_inv f1 f2 (next_id s) (run_events es (race_setup f1 f2 s))"
  using assms by (simp add: race_inv_events race_inv_race_setup)

text \<open>
  The operation that is settled while the other is still pending decides the race:
  whatever the environment does afterwards, the returned promise is pending or settled with
  the result for that operation, and finitely many turns of the job queue settle it.
\<close>

lemma first_settled_wins:
  assumes w: "well_formed s" and bd: "f1 < next_id s" "f2 < next_id s" and a: "a < 2"
    and es: "outside (prot (next_id s)) es" and es': "outside (prot (next_id s)) es'"
    and A: "pstate (store (run_events es (race_setup f1 f2 s)) ([f1, f2] ! a)) = settled_as c0"
    and B: "pstate (store (run_events es (race_setup f1 f2 s)) ([f1, f2] ! (1 - a))) = Pending"
  defines "s3 \<equiv> run_events (es @ es') (race_setup f1 f2 s)"
  shows "pstate (store s3 (next_id s)) = Pending \<or>
         pstate (store s3 (next_id s)) = settled_as (race_result f1 f2 (index_result a c0))"
    and "\<exists>m. pstate (store (ticks m s3) ([f1, f2] ! a)) = settled_as c0 \<and>
             pstate (store (ticks m s3) (next_id s + 1 + a)) = settled_as (index_result a c0) \<and>
             pstate (store (ticks m s3) (next_id s + 3)) = settled_as (index_result a c0) \<and>
             pstate (store (ticks m s3) (next_id s)) = settled_as (race_result f1 f2 (index_result a c0))"
proof -
  let ?n = "next_id s" and ?s2 = "run_events es (race_setup f1 f2 s)"
  have g2: "race_inv f1 f2 ?n ?s2" using w bd es by (rule race_inv_after_setup_events)
  have r2: "racing f1 f2 ?n ?s2" using w bd es by (rule racing_after_events)
  have "pstate (store ?s2 ([f1, f2] ! a)) \<noteq> Pending" using A by simp
  from racing_stage[OF g2 r2 a this B] have st2: "stage f1 f2 ?n a ?s2" .
  have s3: "s3 = run_events es' ?s2" unfolding s3_def by (rule run_events_append)
  have g3: "race_inv f1 f2 ?n s3" unfolding s3 using g2 es' by (rule race_inv_events)
  have st3: "stage f1 f2 ?n a s3" unfolding s3 using g2 st2 a es' by (rule stage_events)
  have lt: "[f1, f2] ! a < next_id ?s2" using input_lt[OF g2 a] race_inv_bounds[OF g2] by simp
  have A3: "pstate (store s3 ([f1, f2] ! a)) = settled_as c0"
    unfolding s3 using lt A by (rule events_settled)
  have dec: "\<And>t. decided f1 f2 ?n a t \<Longrightarrow> pstate (store t ([f1, f2] ! a)) = settled_as c0 \<Longrightarrow>
      pstate (store t (?n + 1 + a)) = settled_as (index_result a c0) \<and>
      pstate (store t (?n + 3)) = settled_as (index_result a c0) \<and>
      pstate (store t ?n) = settled_as (race_result f1 f2 (index_result a c0))"
    unfolding decided_def by auto
  from stage_result[OF st3] dec[OF _ A3]
  show "pstate (store s3 ?n) = Pending \<or>
         pstate (store s3 ?n) = settled_as (race_result f1 f2 (index_result a c0))" by blast
  from stage_decides[OF g3 st3 a] obtain m where m: "decided f1 f2 ?n a (ticks m s3)" by blast
  have lt3: "[f1, f2] ! a < next_id s3" using input_lt[OF g3 a] race_inv_bounds[OF g3] by simp
  have "pstate (store (ticks m s3) ([f1, f2] ! a)) = settled_as c0"
    unfolding ticks_events using lt3 A3 by (rule events_settled)
  with dec[OF m this] show "\<exists>m. pstate (store (ticks m s3) ([f1, f2] ! a)) = settled_as c0 \<and>
             pstate (store (ticks m s3) (?n + 1 + a)) = settled_as (index_result a c0) \<and>
             pstate (store (ticks m s3) (?n + 3)) = settled_as (index_result a c0) \<and>
             pstate (store (ticks m s3) ?n) = settled_as (race_result f1 f2 (index_result a c0))"
    by blast
qed

lemma race_result_fulfilled:
  "a < 2 \<Longrightarrow> race_result f1 f2 (index_result a (Normal v)) = Normal (outcome ([f1, f2] ! a))"
  by (simp add: outcome_def)



text \<open>
  The theorems on the order of settlement are about two arguments that are instances of
  \<^verbatim>\<open>Promise\<close> itself, \<open>properRace_refs (Builtin, first) (Builtin, second)\<close>.  That one
  operation settles strictly before the other is what the race can see of the order: at
  some moment from the call on (after any events \<open>es\<close> of the surrounding program) the one
  is settled while the other is still pending.
\<close>

text \<open>
  Claim C1, amended.  Let \<open>A\<close> be the argument at position \<open>a\<close> and \<open>B\<close> the other one, both
  instances of \<^verbatim>\<open>Promise\<close> itself.  If at some moment from the call on \<open>A\<close> is fulfilled
  while \<open>B\<close> is still pending, then, whatever happens next (the events \<open>es'\<close>, which may
  settle \<open>B\<close> either way), the promise of \<^verbatim>\<open>Promise.race\<close> over the index promises is
  fulfilled with \<open>a\<close> and the returned promise is fulfilled with \<^verbatim>\<open>{ promise: A }\<close> after
  finitely many turns of the job queue, and until then the returned promise is pending.
  The values of \<open>A\<close> and \<open>B\<close> are arbitrary.
\<close>

theorem first_fulfilled_wins:
  assumes "well_formed s" "first < next_id s" "second < next_id s" "a < 2"
    and "outside (prot (next_id s)) es" "outside (prot (next_id s)) es'"
    and "pstate (store (run_events es (snd (properRace_refs (Builtin, first) (Builtin, second) s))) ([first, second] ! a)) = Fulfilled v"
    and "pstate (store (run_events es (snd (properRace_refs (Builtin, first) (Builtin, second) s))) ([first, second] ! (1 - a))) = Pending"
  shows "(pstate (store (run_events (es @ es') (snd (properRace_refs (Builtin, first) (Builtin, second) s)))
            (fst (properRace_refs (Builtin, first) (Builtin, second) s))) = Pending \<or>
          pstate (store (run_events (es @ es') (snd (properRace_refs (Builtin, first) (Builtin, second) s)))
            (fst (properRace_refs (Builtin, first) (Builtin, second) s))) = Fulfilled (outcome ([first, second] ! a))) \<and>
         (\<exists>m. pstate (store (ticks m (run_events (es @ es') (snd (properRace_refs (Builtin, first) (Builtin, second) s))))
                  (race_promise (fst (properRace_refs (Builtin, first) (Builtin, second) s)))) = Fulfilled (Num (int a)) \<and>
              pstate (store (ticks m (run_events (es @ es') (snd (properRace_refs (Builtin, first) (Builtin, second) s))))
                  (fst (properRace_refs (Builtin, first) (Builtin, second) s))) = Fulfilled (outcome ([first, second] ! a)))"
proof -
  have A: "pstate (store (run_events es (race_setup first second s)) ([first, second] ! a)) =
      settled_as (Normal v)"
    using assms(7) by (simp add: properRace_builtin properRace_snd)
  have B: "pstate (store (run_events es (race_setup first second s)) ([first, second] ! (1 - a))) = Pending"
    using assms(8) by (simp add: properRace_builtin properRace_snd)
  note f = first_settled_wins[OF assms(1-3) assms(4) assms(5,6) A B]
  from f(1) f(2) show ?thesis
    unfolding properRace_builtin properRace_snd properRace_fst race_promise_def race_result_fulfilled[OF assms(4)]
    by auto
qed

text \<open>
  Claim C3, amended.  Let \<open>A\<close> and \<open>B\<close> be instances of \<^verbatim>\<open>Promise\<close> itself.  If at some moment
  from the call on \<open>A\<close> is rejected with reason \<open>e\<close> while \<open>B\<close> is still pending, the race
  resolves to no outcome: the returned promise stays pending until, after finitely many
  turns of the job queue, it is rejected with \<open>e\<close>.  \<open>A\<close> itself stays rejected with \<open>e\<close>,
  so observing \<open>A\<close> yields the original failure.
\<close>

theorem first_rejected_rejects:
  assumes "well_formed s" "first < next_id s" "second < next_id s" "a < 2"
    and "outside (prot (next_id s)) es" "outside (prot (next_id s)) es'"
    and "pstate (store (run_events es (snd (properRace_refs (Builtin, first) (Builtin, second) s))) ([first, second] ! a)) = Rejected e"
    and "pstate (store (run_events es (snd (properRace_refs (Builtin, first) (Builtin, second) s))) ([first, second] ! (1 - a))) = Pending"
  shows "(pstate (store (run_events (es @ es') (snd (properRace_refs (Builtin, first) (Builtin, second) s)))
            (fst (properRace_refs (Builtin, first) (Builtin, second) s))) = Pending \<or>
          pstate (store (run_events (es @ es') (snd (properRace_refs (Builtin, first) (Builtin, second) s)))
            (fst (properRace_refs (Builtin, first) (Builtin, second) s))) = Rejected e) \<and>
         (\<exists>m. pstate (store (ticks m (run_events (es @ es') (snd (properRace_refs (Builtin, first) (Builtin, second) s))))
                  (fst (properRace_refs (Builtin, first) (Builtin, second) s))) = Rejected e \<and>
              pstate (store (ticks m (run_events (es @ es') (snd (properRace_refs (Builtin, first) (Builtin, second) s))))
                  ([first, second] ! a)) = Rejected e)"
proof -
  have A: "pstate (store (run_events es (race_setup first second s)) ([first, second] ! a)) =
      settled_as (Throw e)"
    using assms(7) by (simp add: properRace_builtin properRace_snd)
  have B: "pstate (store (run_events es (race_setup first second s)) ([first, second] ! (1 - a))) = Pending"
    using assms(8) by (simp add: properRace_builtin properRace_snd)
  note f = first_settled_wins[OF assms(1-3) assms(4) assms(5,6) A B]
  from f(1) f(2) show ?thesis
    unfolding properRace_builtin properRace_snd properRace_fst by auto
qed

text \<open>
  Claim C4, amended.  Let the two arguments be instances of \<^verbatim>\<open>Promise\<close> itself.  If at some
  moment from the call on one of them is rejected with reason \<open>e\<close> while the other is still
  pending, the failure travels unchanged through the chain: whatever happens next, after
  finitely many turns of the job queue the index promise derived from the failing argument,
  the promise of \<^verbatim>\<open>Promise.race\<close> and the returned promise are all rejected with \<open>e\<close>.
\<close>

theorem failure_propagates:
  assumes "well_formed s" "first < next_id s" "second < next_id s" "a < 2"
    and "outside (prot (next_id s)) es" "outside (prot (next_id s)) es'"
    and "pstate (store (run_events es (snd (properRace_refs (Builtin, first) (Builtin, second) s))) ([first, second] ! a)) = Rejected e"
    and "pstate (store (run_events es (snd (properRace_refs (Builtin, first) (Builtin, second) s))) ([first, second] ! (1 - a))) = Pending"
  shows "\<exists>m. pstate (store (ticks m (run_events (es @ es') (snd (properRace_refs (Builtin, first) (Builtin, second) s))))
                  (index_promise (fst (properRace_refs (Builtin, first) (Builtin, second) s)) a)) = Rejected e \<and>
             pstate (store (ticks m (run_events (es @ es') (snd (properRace_refs (Builtin, first) (Builtin, second) s))))
                  (race_promise (fst (properRace_refs (Builtin, first) (Builtin, second) s)))) = Rejected e \<and>
             pstate (store (ticks m (run_events (es @ es') (snd (properRace_refs (Builtin, first) (Builtin, second) s))))
                  (fst (properRace_refs (Builtin, first) (Builtin, second) s))) = Rejected e"
proof -
  have A: "pstate (store (run_events es (race_setup first second s)) ([first, second] ! a)) =
      settled_as (Throw e)"
    using assms(7) by (simp add: properRace_builtin properRace_snd)
  have B: "pstate (store (run_events es (race_setup first second s)) ([first, second] ! (1 - a))) = Pending"
    using assms(8) by (simp add: properRace_builtin properRace_snd)
  note f = first_settled_wins[OF assms(1-3) assms(4) assms(5,6) A B]
  from f(2) show ?thesis
    unfolding properRace_builtin properRace_snd properRace_fst race_promise_def index_promise_def by auto
qed

text \<open>
  Claim C8, amended.  Let the two arguments be instances of \<^verbatim>\<open>Promise\<close> itself.  If at some
  moment from the call on one of them is settled, either way, while the other is still
  pending, the returned promise settles after finitely many turns of the job queue with the
  result for that argument, and from then on no event whatsoever (in particular no later
  settlement of the other argument) changes it.
\<close>

theorem later_settlement_has_no_effect:
  assumes "well_formed s" "first < next_id s" "second < next_id s" "a < 2"
    and "outside (prot (next_id s)) es" "outside (prot (next_id s)) es'"
    and "pstate (store (run_events es (snd (properRace_refs (Builtin, first) (Builtin, second) s))) ([first, second] ! a)) = winner"
    and "winner \<noteq> Pending"
    and "pstate (store (run_events es (snd (properRace_refs (Builtin, first) (Builtin, second) s))) ([first, second] ! (1 - a))) = Pending"
  shows "\<exists>m result. result \<noteq> Pending \<and>
           (winner = Rejected e \<longrightarrow> result = Rejected e) \<and>
           (winner = Fulfilled v \<longrightarrow> result = Fulfilled (outcome ([first, second] ! a))) \<and>
           (\<forall>later. pstate (store (run_events later
                      (ticks m (run_events (es @ es') (snd (properRace_refs (Builtin, first) (Builtin, second) s)))))
                    (fst (properRace_refs (Builtin, first) (Builtin, second) s))) = result)"
proof -
  from settled_as_cases[OF assms(8)] obtain c0 where c0: "winner = settled_as c0" by blast
  have A: "pstate (store (run_events es (race_setup first second s)) ([first, second] ! a)) =
      settled_as c0"
    using assms(7) c0 by (simp add: properRace_builtin properRace_snd)
  have B: "pstate (store (run_events es (race_setup first second s)) ([first, second] ! (1 - a))) = Pending"
    using assms(9) by (simp add: properRace_builtin properRace_snd)
  let ?s3 = "run_events (es @ es') (race_setup first second s)"
  let ?c = "race_result first second (index_result a c0)"
  from first_settled_wins(2)[OF assms(1-3) assms(4) assms(5,6) A B]
  obtain m where m: "pstate (store (ticks m ?s3) (next_id s)) = settled_as ?c" by blast
  have g: "race_inv first second (next_id s) ?s3"
    using assms(1-3) by (rule race_inv_after_setup_events) (simp add: outside_append assms(5,6))
  have "next_id s < next_id (ticks m ?s3)" using race_inv_bounds[OF race_inv_ticks[OF g, of m]] by simp
  from events_settled[OF this m]
  have stable: "\<forall>later. pstate (store (run_events later (ticks m ?s3)) (next_id s)) = settled_as ?c"
    by blast
  have "settled_as ?c \<noteq> Pending" by simp
  moreover have "winner = Rejected e \<longrightarrow> settled_as ?c = Rejected e"
    using c0 by (cases c0) auto
  moreover have "winner = Fulfilled v \<longrightarrow> settled_as ?c = Fulfilled (outcome ([first, second] ! a))"
    using c0 assms(4) by (cases c0) (auto simp: outcome_def)
  ultimately show ?thesis using stable unfolding properRace_builtin properRace_snd properRace_fst by blast
qed


section \<open>Examples of races\<close>

lemmas scenario_defs = slow_first_def then_other_def boom_first_def then_true_def
  boom_then_true_def both_settled_def fulfil_first_def reject_first_def two_pending_eq

lemma outside_scenarios:
  "outside (prot (next_id two_pending)) slow_first"
  "outside (prot (next_id two_pending)) then_other"
  "outside (prot (next_id two_pending)) boom_first"
  "outside (prot (next_id two_pending)) then_true"
  by (simp_all add: outside_def prot_def scenario_defs)

lemma slow_first_states:
  "pstate (store (run_events slow_first (snd (properRace 0 1 two_pending))) ([0, 1] ! 0)) =
     Fulfilled (Str ''slow'')"
  "pstate (store (run_events slow_first (snd (properRace 0 1 two_pending))) ([0, 1] ! (1 - 0))) =
     Pending"
  by (simp_all add: scenario_defs eval_simps del: access_simps)

lemma boom_first_states:
  "pstate (store (run_events boom_first (snd (properRace 0 1 two_pending))) ([0, 1] ! 0)) =
     Rejected (Str ''boom'')"
  "pstate (store (run_events boom_first (snd (properRace 0 1 two_pending))) ([0, 1] ! (1 - 0))) =
     Pending"
  by (simp_all add: scenario_defs eval_simps del: access_simps)

lemmas slow_first_refs = slow_first_states[unfolded properRace_def]

lemmas boom_first_refs = boom_first_states[unfolded properRace_def]

lemma boom_then_true_result:
  "pstate (store (run_events boom_then_true (snd (properRace 0 1 two_pending)))
     (fst (properRace 0 1 two_pending))) = Rejected (Str ''boom'')"
  by (simp add: scenario_defs eval_simps del: access_simps)

lemma boom_then_true_queue:
  "queue (run_events boom_then_true (snd (properRace 0 1 two_pending))) = []"
  by (simp add: scenario_defs eval_simps del: access_simps)

text \<open>
  Two operations settled before the call, the second one first: the race is decided for
  position \<open>0\<close>.
\<close>

lemma second_settles_before_first:
  "pstate (store (run_events [Call (ResolveFn 1) (Num 42)] two_pending) 1) = Fulfilled (Num 42)"
  "pstate (store (run_events [Call (ResolveFn 1) (Num 42)] two_pending) 0) = Pending"
  by (simp_all add: scenario_defs eval_simps del: access_simps)

lemma both_settled_result:
  "pstate (store (ticks 5 (snd (properRace 0 1 both_settled))) (fst (properRace 0 1 both_settled))) =
     Fulfilled (outcome 0)"
  "pstate (store (ticks 5 (snd (properRace 0 1 both_settled)))
     (race_promise (fst (properRace 0 1 both_settled)))) = Fulfilled (Num 0)"
  by (simp_all add: scenario_defs eval_simps race_promise_def eval_nat_numeral del: access_simps)




text \<open>
  Races with an instance of a subclass.  The promise that \<^verbatim>\<open>Promise.resolve\<close> puts in front
  of the index promise of that argument makes its chain two jobs longer than the chain of
  an instance of \<^verbatim>\<open>Promise\<close>.
\<close>

lemma properRace_refs_fst [simp]: "fst (properRace_refs x y s) = next_id s"
  by (simp add: properRace_refs_def split_def Let_def)

lemma next_id_resolve_promise: "next_id (resolve_promise p v s) = next_id s"
  by (simp add: resolve_promise_def del: then_of.simps split: val.splits then_lookup.splits)

lemma next_id_resolve_fn: "next_id (resolve_fn p v s) = next_id s"
  by (simp add: resolve_fn_def next_id_resolve_promise)

lemma subclass_first_unfold:
  "snd (properRace_refs (Subclass, f1) (Builtin, f2) s) =
     (perform_then (next_id s + 3) (Some (RaceResume [f1, f2] (next_id s))) (Some (RaceThrow
     (next_id s))) None (perform_then (next_id s + 2) (Some (ResolveFn (next_id s + 3))) (Some
     (RejectFn (next_id s + 3))) (Some (next_id s + 6)) (snd (new_promise (perform_then (next_id
     s + 4) (Some (ResolveFn (next_id s + 3))) (Some (RejectFn (next_id s + 3))) (Some (next_id s
     + 5)) (snd (new_promise (resolve_fn (next_id s + 4) (PromiseRef (next_id s + 1)) (snd
     (new_promise (snd (new_promise (perform_then f2 (Some (IndexOf 1)) None (Some (next_id s +
     2)) (snd (new_promise (perform_then f1 (Some (IndexOf 0)) None (Some (next_id s + 1)) (snd
     (new_promise (snd (new_promise s))))))))))))))))))))"
  by (simp add: properRace_refs_def then_ref_def promise_race_def await_Builtin split_def Let_def
      eval_nat_numeral next_id_resolve_fn)

lemma subclass_second_unfold:
  "snd (properRace_refs (Builtin, f1) (Subclass, f2) s) =
     (perform_then (next_id s + 3) (Some (RaceResume [f1, f2] (next_id s))) (Some (RaceThrow
     (next_id s))) None (perform_then (next_id s + 5) (Some (ResolveFn (next_id s + 3))) (Some
     (RejectFn (next_id s + 3))) (Some (next_id s + 6)) (snd (new_promise (resolve_fn (next_id s
     + 5) (PromiseRef (next_id s + 2)) (snd (new_promise (perform_then (next_id s + 1) (Some
     (ResolveFn (next_id s + 3))) (Some (RejectFn (next_id s + 3))) (Some (next_id s + 4)) (snd
     (new_promise (snd (new_promise (perform_then f2 (Some (IndexOf 1)) None (Some (next_id s +
     2)) (snd (new_promise (perform_then f1 (Some (IndexOf 0)) None (Some (next_id s + 1)) (snd
     (new_promise (snd (new_promise s))))))))))))))))))))"
  by (simp add: properRace_refs_def then_ref_def promise_race_def await_Builtin split_def Let_def
      eval_nat_numeral next_id_resolve_fn)

lemmas subclass_eval = subclass_first_unfold subclass_second_unfold then_call_def
  race_promise_def index_promise_def eval_nat_numeral

lemma subclass_slow_first:
  "pstate (store (run_events slow_first
      (snd (properRace_refs (Subclass, 0) (Builtin, 1) two_pending))) 0) = Fulfilled (Str ''slow'')"
  "pstate (store (run_events slow_first
      (snd (properRace_refs (Subclass, 0) (Builtin, 1) two_pending))) 1) = Pending"
  "pstate (store (ticks 7 (run_events (slow_first @ then_other)
      (snd (properRace_refs (Subclass, 0) (Builtin, 1) two_pending))))
     (fst (properRace_refs (Subclass, 0) (Builtin, 1) two_pending))) = Fulfilled (outcome 1)"
  "queue (ticks 7 (run_events (slow_first @ then_other)
      (snd (properRace_refs (Subclass, 0) (Builtin, 1) two_pending)))) = []"
  by (simp_all add: scenario_defs subclass_eval eval_simps del: access_simps)

lemma subclass_boom_first:
  "pstate (store (run_events boom_first
      (snd (properRace_refs (Subclass, 0) (Builtin, 1) two_pending))) 0) = Rejected (Str ''boom'')"
  "pstate (store (run_events boom_first
      (snd (properRace_refs (Subclass, 0) (Builtin, 1) two_pending))) 1) = Pending"
  "pstate (store (ticks 7 (run_events (boom_first @ then_true)
      (snd (properRace_refs (Subclass, 0) (Builtin, 1) two_pending))))
     (fst (properRace_refs (Subclass, 0) (Builtin, 1) two_pending))) = Fulfilled (outcome 1)"
  "pstate (store (ticks 7 (run_events (boom_first @ then_true)
      (snd (properRace_refs (Subclass, 0) (Builtin, 1) two_pending)))) 0) = Rejected (Str ''boom'')"
  "queue (ticks 7 (run_events (boom_first @ then_true)
      (snd (properRace_refs (Subclass, 0) (Builtin, 1) two_pending)))) = []"
  by (simp_all add: scenario_defs subclass_eval eval_simps del: access_simps)

lemma subclass_boom_chain:
  "pstate (store (ticks 7 (run_events (boom_first @ then_true)
      (snd (properRace_refs (Subclass, 0) (Builtin, 1) two_pending))))
     (index_promise (fst (properRace_refs (Subclass, 0) (Builtin, 1) two_pending)) 0)) =
     Rejected (Str ''boom'')"
  "pstate (store (ticks 7 (run_events (boom_first @ then_true)
      (snd (properRace_refs (Subclass, 0) (Builtin, 1) two_pending))))
     (race_promise (fst (properRace_refs (Subclass, 0) (Builtin, 1) two_pending)))) =
     Fulfilled (Num 1)"
  by (simp_all add: scenario_defs subclass_eval eval_simps del: access_simps)

lemma subclass_second:
  "pstate (store (run_events then_other
      (snd (properRace_refs (Builtin, 0) (Subclass, 1) two_pending))) 1) = Fulfilled (Num 42)"
  "pstate (store (run_events then_other
      (snd (properRace_refs (Builtin, 0) (Subclass, 1) two_pending))) 0) = Pending"
  "pstate (store (ticks 7 (run_events (then_other @ slow_first)
      (snd (properRace_refs (Builtin, 0) (Subclass, 1) two_pending))))
     (fst (properRace_refs (Builtin, 0) (Subclass, 1) two_pending))) = Fulfilled (outcome 0)"
  "queue (ticks 7 (run_events (then_other @ slow_first)
      (snd (properRace_refs (Builtin, 0) (Subclass, 1) two_pending)))) = []"
  by (simp_all add: scenario_defs subclass_eval eval_simps del: access_simps)

text \<open>
  Two operations settled before the call, the second one rejected first: the race is
  decided for position \<open>0\<close> and the failure is not seen.
\<close>

lemma second_fails_before_first:
  "pstate (store (run_events [Call (RejectFn 1) (Str ''boom'')] two_pending) 1) =
     Rejected (Str ''boom'')"
  "pstate (store (run_events [Call (RejectFn 1) (Str ''boom'')] two_pending) 0) = Pending"
  "pstate (store failed_then_fulfilled 0) = Fulfilled (Str ''slow'')"
  "pstate (store failed_then_fulfilled 1) = Rejected (Str ''boom'')"
  by (simp_all add: failed_then_fulfilled_def scenario_defs eval_simps del: access_simps)

lemma failed_then_fulfilled_result:
  "pstate (store (ticks 5 (snd (properRace 0 1 failed_then_fulfilled)))
     (fst (properRace 0 1 failed_then_fulfilled))) = Fulfilled (outcome 0)"
  "queue (ticks 5 (snd (properRace 0 1 failed_then_fulfilled))) = []"
  by (simp_all add: failed_then_fulfilled_def scenario_defs eval_simps eval_nat_numeral
      del: access_simps)

lemma two_lt_two: "(0::nat) < 2"
  by simp

theorem first_fulfilled_wins_witness:
  "well_formed two_pending \<and> 0 < next_id two_pending \<and> 1 < next_id two_pending \<and> (0::nat) < 2 \<and>
   outside (prot (next_id two_pending)) slow_first \<and>
   outside (prot (next_id two_pending)) then_other \<and>
   pstate (store (run_events slow_first (snd (properRace_refs (Builtin, 0) (Builtin, 1) two_pending))) ([0, 1] ! 0)) =
     Fulfilled (Str ''slow'') \<and>
   pstate (store (run_events slow_first (snd (properRace_refs (Builtin, 0) (Builtin, 1) two_pending))) ([0, 1] ! (1 - 0))) =
     Pending \<and>
   (pstate (store (run_events (slow_first @ then_other) (snd (properRace_refs (Builtin, 0) (Builtin, 1) two_pending)))
      (fst (properRace_refs (Builtin, 0) (Builtin, 1) two_pending))) = Pending \<or>
    pstate (store (run_events (slow_first @ then_other) (snd (properRace_refs (Builtin, 0) (Builtin, 1) two_pending)))
      (fst (properRace_refs (Builtin, 0) (Builtin, 1) two_pending))) = Fulfilled (outcome ([0, 1] ! 0))) \<and>
   (\<exists>m. pstate (store (ticks m (run_events (slow_first @ then_other) (snd (properRace_refs (Builtin, 0) (Builtin, 1) two_pending))))
            (race_promise (fst (properRace_refs (Builtin, 0) (Builtin, 1) two_pending)))) = Fulfilled (Num (int 0)) \<and>
        pstate (store (ticks m (run_events (slow_first @ then_other) (snd (properRace_refs (Builtin, 0) (Builtin, 1) two_pending))))
            (fst (properRace_refs (Builtin, 0) (Builtin, 1) two_pending))) = Fulfilled (outcome ([0, 1] ! 0)))"
  using first_fulfilled_wins[OF well_formed_two_pending bounds_two_pending two_lt_two
      outside_scenarios(1,2) slow_first_refs]
    well_formed_two_pending bounds_two_pending outside_scenarios(1,2) slow_first_states
  by (intro conjI) (simp_all add: properRace_builtin)

text \<open>
  Claim C1 as stated fails in three ways.  When the operation that settles first is
  rejected, the race identifies no winner: after the other has been fulfilled too and all
  jobs have run, the returned promise is rejected.  When both operations are settled before
  the call, the one at position \<open>0\<close> wins although the other settled first.  When the
  operation that is fulfilled first is an instance of a subclass of \<^verbatim>\<open>Promise\<close> and the
  other is fulfilled before the jobs run, the other wins.
\<close>

theorem first_settled_wins_counterexample:
  "pstate (store (run_events boom_first (snd (properRace_refs (Builtin, 0) (Builtin, 1) two_pending))) 0) = Rejected (Str ''boom'') \<and>
   pstate (store (run_events boom_first (snd (properRace_refs (Builtin, 0) (Builtin, 1) two_pending))) 1) = Pending \<and>
   pstate (store (run_events boom_then_true (snd (properRace_refs (Builtin, 0) (Builtin, 1) two_pending)))
     (fst (properRace_refs (Builtin, 0) (Builtin, 1) two_pending))) = Rejected (Str ''boom'') \<and>
   queue (run_events boom_then_true (snd (properRace_refs (Builtin, 0) (Builtin, 1) two_pending))) = [] \<and>
   pstate (store (run_events [Call (ResolveFn 1) (Num 42)] two_pending) 1) = Fulfilled (Num 42) \<and>
   pstate (store (run_events [Call (ResolveFn 1) (Num 42)] two_pending) 0) = Pending \<and>
   pstate (store (ticks 5 (snd (properRace_refs (Builtin, 0) (Builtin, 1) both_settled)))
     (fst (properRace_refs (Builtin, 0) (Builtin, 1) both_settled))) = Fulfilled (outcome 0) \<and>
   pstate (store (run_events slow_first (snd (properRace_refs (Subclass, 0) (Builtin, 1) two_pending))) 0) = Fulfilled (Str ''slow'') \<and>
   pstate (store (run_events slow_first (snd (properRace_refs (Subclass, 0) (Builtin, 1) two_pending))) 1) = Pending \<and>
   pstate (store (ticks 7 (run_events (slow_first @ then_other) (snd (properRace_refs (Subclass, 0) (Builtin, 1) two_pending))))
     (fst (properRace_refs (Subclass, 0) (Builtin, 1) two_pending))) = Fulfilled (outcome 1) \<and>
   queue (ticks 7 (run_events (slow_first @ then_other) (snd (properRace_refs (Subclass, 0) (Builtin, 1) two_pending)))) = []"
  using boom_first_states boom_then_true_result boom_then_true_queue second_settles_before_first
    both_settled_result(1) subclass_slow_first
  by (intro conjI) (simp_all add: properRace_builtin)

text \<open>
  Claim C3 as stated fails.  In the scenario of the specification (\<open>A\<close> fails with \<open>boom\<close>,
  then \<open>B\<close> completes with \<open>true\<close>) the race does not resolve to an outcome identifying \<open>A\<close>:
  the returned promise is rejected with \<open>boom\<close>.  When \<open>A\<close> is an instance of a subclass of
  \<^verbatim>\<open>Promise\<close> and \<open>B\<close> completes before the jobs run, the race resolves to the outcome for
  \<open>B\<close>.  When \<open>A\<close>, at position \<open>1\<close>, has failed and \<open>B\<close> has then completed, both before the
  call, the race resolves to the outcome for \<open>B\<close> as well.
\<close>

theorem failed_first_outcome_counterexample:
  "pstate (store (run_events boom_then_true (snd (properRace_refs (Builtin, 0) (Builtin, 1) two_pending)))
     (fst (properRace_refs (Builtin, 0) (Builtin, 1) two_pending))) = Rejected (Str ''boom'') \<and>
   Rejected (Str ''boom'') \<noteq> Fulfilled (outcome 0) \<and>
   pstate (store (run_events boom_first (snd (properRace_refs (Subclass, 0) (Builtin, 1) two_pending))) 0) = Rejected (Str ''boom'') \<and>
   pstate (store (run_events boom_first (snd (properRace_refs (Subclass, 0) (Builtin, 1) two_pending))) 1) = Pending \<and>
   pstate (store (ticks 7 (run_events (boom_first @ then_true) (snd (properRace_refs (Subclass, 0) (Builtin, 1) two_pending))))
     (fst (properRace_refs (Subclass, 0) (Builtin, 1) two_pending))) = Fulfilled (outcome 1) \<and>
   pstate (store (ticks 7 (run_events (boom_first @ then_true) (snd (properRace_refs (Subclass, 0) (Builtin, 1) two_pending)))) 0) =
     Rejected (Str ''boom'') \<and>
   pstate (store (run_events [Call (RejectFn 1) (Str ''boom'')] two_pending) 1) =
     Rejected (Str ''boom'') \<and>
   pstate (store (run_events [Call (RejectFn 1) (Str ''boom'')] two_pending) 0) = Pending \<and>
   pstate (store (ticks 5 (snd (properRace_refs (Builtin, 0) (Builtin, 1) failed_then_fulfilled)))
     (fst (properRace_refs (Builtin, 0) (Builtin, 1) failed_then_fulfilled))) =
     Fulfilled (outcome 0)"
  using boom_then_true_result subclass_boom_first(1-4) second_fails_before_first(1,2)
    failed_then_fulfilled_result(1)
  by (intro conjI) (simp_all add: properRace_builtin)

theorem first_rejected_rejects_witness:
  "well_formed two_pending \<and> 0 < next_id two_pending \<and> 1 < next_id two_pending \<and> (0::nat) < 2 \<and>
   outside (prot (next_id two_pending)) boom_first \<and>
   outside (prot (next_id two_pending)) then_true \<and>
   pstate (store (run_events boom_first (snd (properRace_refs (Builtin, 0) (Builtin, 1) two_pending))) ([0, 1] ! 0)) =
     Rejected (Str ''boom'') \<and>
   pstate (store (run_events boom_first (snd (properRace_refs (Builtin, 0) (Builtin, 1) two_pending))) ([0, 1] ! (1 - 0))) =
     Pending \<and>
   (pstate (store (run_events (boom_first @ then_true) (snd (properRace_refs (Builtin, 0) (Builtin, 1) two_pending)))
      (fst (properRace_refs (Builtin, 0) (Builtin, 1) two_pending))) = Pending \<or>
    pstate (store (run_events (boom_first @ then_true) (snd (properRace_refs (Builtin, 0) (Builtin, 1) two_pending)))
      (fst (properRace_refs (Builtin, 0) (Builtin, 1) two_pending))) = Rejected (Str ''boom'')) \<and>
   (\<exists>m. pstate (store (ticks m (run_events (boom_first @ then_true) (snd (properRace_refs (Builtin, 0) (Builtin, 1) two_pending))))
            (fst (properRace_refs (Builtin, 0) (Builtin, 1) two_pending))) = Rejected (Str ''boom'') \<and>
        pstate (store (ticks m (run_events (boom_first @ then_true) (snd (properRace_refs (Builtin, 0) (Builtin, 1) two_pending))))
            ([0, 1] ! 0)) = Rejected (Str ''boom''))"
  using first_rejected_rejects[OF well_formed_two_pending bounds_two_pending two_lt_two
      outside_scenarios(3,4) boom_first_refs]
    well_formed_two_pending bounds_two_pending outside_scenarios(3,4) boom_first_states
  by (intro conjI) (simp_all add: properRace_builtin)

text \<open>
  Claim C4 as stated fails in two ways.  When the second operation has failed and then the
  first has been fulfilled, both before the call, the race resolves to the outcome for the
  first and the failure is not seen.  When the operation that fails while the other is
  pending is an instance of a subclass of \<^verbatim>\<open>Promise\<close> and the other is fulfilled before the
  jobs run, its index promise fails, but the promise of \<^verbatim>\<open>Promise.race\<close> is fulfilled with
  the other index and the race resolves to the outcome for the other.
\<close>

theorem failure_suppressed_counterexample:
  "pstate (store (run_events [Call (RejectFn 1) (Str ''boom'')] two_pending) 1) =
     Rejected (Str ''boom'') \<and>
   pstate (store (run_events [Call (RejectFn 1) (Str ''boom'')] two_pending) 0) = Pending \<and>
   pstate (store failed_then_fulfilled 0) = Fulfilled (Str ''slow'') \<and>
   pstate (store (ticks 5 (snd (properRace_refs (Builtin, 0) (Builtin, 1) failed_then_fulfilled)))
     (fst (properRace_refs (Builtin, 0) (Builtin, 1) failed_then_fulfilled))) =
     Fulfilled (outcome 0) \<and>
   queue (ticks 5 (snd (properRace_refs (Builtin, 0) (Builtin, 1) failed_then_fulfilled))) = [] \<and>
   pstate (store (run_events boom_first (snd (properRace_refs (Subclass, 0) (Builtin, 1) two_pending))) 0) = Rejected (Str ''boom'') \<and>
   pstate (store (run_events boom_first (snd (properRace_refs (Subclass, 0) (Builtin, 1) two_pending))) 1) = Pending \<and>
   pstate (store (ticks 7 (run_events (boom_first @ then_true) (snd (properRace_refs (Subclass, 0) (Builtin, 1) two_pending))))
     (index_promise (fst (properRace_refs (Subclass, 0) (Builtin, 1) two_pending)) 0)) = Rejected (Str ''boom'') \<and>
   pstate (store (ticks 7 (run_events (boom_first @ then_true) (snd (properRace_refs (Subclass, 0) (Builtin, 1) two_pending))))
     (race_promise (fst (properRace_refs (Subclass, 0) (Builtin, 1) two_pending)))) = Fulfilled (Num 1) \<and>
   pstate (store (ticks 7 (run_events (boom_first @ then_true) (snd (properRace_refs (Subclass, 0) (Builtin, 1) two_pending))))
     (fst (properRace_refs (Subclass, 0) (Builtin, 1) two_pending))) = Fulfilled (outcome 1) \<and>
   queue (ticks 7 (run_events (boom_first @ then_true) (snd (properRace_refs (Subclass, 0) (Builtin, 1) two_pending)))) = []"
  using second_fails_before_first(1-3) failed_then_fulfilled_result subclass_boom_first(1-3,5)
    subclass_boom_chain
  by (intro conjI) (simp_all add: properRace_builtin)

theorem failure_propagates_witness:
  "well_formed two_pending \<and> 0 < next_id two_pending \<and> 1 < next_id two_pending \<and> (0::nat) < 2 \<and>
   outside (prot (next_id two_pending)) boom_first \<and>
   outside (prot (next_id two_pending)) then_true \<and>
   pstate (store (run_events boom_first (snd (properRace_refs (Builtin, 0) (Builtin, 1) two_pending))) ([0, 1] ! 0)) =
     Rejected (Str ''boom'') \<and>
   pstate (store (run_events boom_first (snd (properRace_refs (Builtin, 0) (Builtin, 1) two_pending))) ([0, 1] ! (1 - 0))) =
     Pending \<and>
   (\<exists>m. pstate (store (ticks m (run_events (boom_first @ then_true) (snd (properRace_refs (Builtin, 0) (Builtin, 1) two_pending))))
            (index_promise (fst (properRace_refs (Builtin, 0) (Builtin, 1) two_pending)) 0)) = Rejected (Str ''boom'') \<and>
        pstate (store (ticks m (run_events (boom_first @ then_true) (snd (properRace_refs (Builtin, 0) (Builtin, 1) two_pending))))
            (race_promise (fst (properRace_refs (Builtin, 0) (Builtin, 1) two_pending)))) = Rejected (Str ''boom'') \<and>
        pstate (store (ticks m (run_events (boom_first @ then_true) (snd (properRace_refs (Builtin, 0) (Builtin, 1) two_pending))))
            (fst (properRace_refs (Builtin, 0) (Builtin, 1) two_pending))) = Rejected (Str ''boom''))"
  using failure_propagates[OF well_formed_two_pending bounds_two_pending two_lt_two
      outside_scenarios(3,4) boom_first_refs]
    well_formed_two_pending bounds_two_pending outside_scenarios(3,4) boom_first_states
  by (intro conjI) (simp_all add: properRace_builtin)

text \<open>
  Claim C8 as stated fails in two ways.  When both operations are settled before the call,
  the second one first, the race resolves to the outcome for the first.  When the
  operation that settles first is an instance of a subclass of \<^verbatim>\<open>Promise\<close> and the other
  settles before the jobs run, the race resolves to the outcome for the other.
\<close>

theorem first_settlement_overtaken_counterexample:
  "pstate (store (run_events [Call (ResolveFn 1) (Num 42)] two_pending) 1) = Fulfilled (Num 42) \<and>
   pstate (store (run_events [Call (ResolveFn 1) (Num 42)] two_pending) 0) = Pending \<and>
   pstate (store (ticks 5 (snd (properRace_refs (Builtin, 0) (Builtin, 1) both_settled)))
     (fst (properRace_refs (Builtin, 0) (Builtin, 1) both_settled))) = Fulfilled (outcome 0) \<and>
   pstate (store (ticks 5 (snd (properRace_refs (Builtin, 0) (Builtin, 1) both_settled)))
     (race_promise (fst (properRace_refs (Builtin, 0) (Builtin, 1) both_settled)))) =
     Fulfilled (Num 0) \<and>
   pstate (store (run_events then_other (snd (properRace_refs (Builtin, 0) (Subclass, 1) two_pending))) 1) = Fulfilled (Num 42) \<and>
   pstate (store (run_events then_other (snd (properRace_refs (Builtin, 0) (Subclass, 1) two_pending))) 0) = Pending \<and>
   pstate (store (ticks 7 (run_events (then_other @ slow_first) (snd (properRace_refs (Builtin, 0) (Subclass, 1) two_pending))))
     (fst (properRace_refs (Builtin, 0) (Subclass, 1) two_pending))) = Fulfilled (outcome 0) \<and>
   queue (ticks 7 (run_events (then_other @ slow_first) (snd (properRace_refs (Builtin, 0) (Subclass, 1) two_pending)))) = []"
  using second_settles_before_first both_settled_result subclass_second
  by (intro conjI) (simp_all add: properRace_builtin)

lemma fulfilled_not_pending: "Fulfilled (Str ''slow'') \<noteq> Pending"
  by simp

theorem later_settlement_has_no_effect_witness:
  "well_formed two_pending \<and> 0 < next_id two_pending \<and> 1 < next_id two_pending \<and> (0::nat) < 2 \<and>
   outside (prot (next_id two_pending)) slow_first \<and>
   outside (prot (next_id two_pending)) then_other \<and>
   pstate (store (run_events slow_first (snd (properRace_refs (Builtin, 0) (Builtin, 1) two_pending))) ([0, 1] ! 0)) =
     Fulfilled (Str ''slow'') \<and>
   Fulfilled (Str ''slow'') \<noteq> Pending \<and>
   pstate (store (run_events slow_first (snd (properRace_refs (Builtin, 0) (Builtin, 1) two_pending))) ([0, 1] ! (1 - 0))) =
     Pending \<and>
   (\<exists>m result. result \<noteq> Pending \<and>
      (Fulfilled (Str ''slow'') = Rejected (Str ''boom'') \<longrightarrow> result = Rejected (Str ''boom'')) \<and>
      (Fulfilled (Str ''slow'') = Fulfilled (Str ''slow'') \<longrightarrow> result = Fulfilled (outcome ([0, 1] ! 0))) \<and>
      (\<forall>later. pstate (store (run_events later
                 (ticks m (run_events (slow_first @ then_other) (snd (properRace_refs (Builtin, 0) (Builtin, 1) two_pending)))))
               (fst (properRace_refs (Builtin, 0) (Builtin, 1) two_pending))) = result))"
  using later_settlement_has_no_effect[OF well_formed_two_pending bounds_two_pending two_lt_two
      outside_scenarios(1,2) slow_first_refs(1) fulfilled_not_pending slow_first_refs(2),
      of "Str ''boom''" "Str ''slow''"]
    well_formed_two_pending bounds_two_pending outside_scenarios(1,2) slow_first_states
  by (intro conjI) (simp_all add: properRace_builtin)


section \<open>Delayed results\<close>

lemma delay_inv_frame:
  assumes g: "delay_inv r n s"
    and nid: "next_id s \<le> next_id s'"
    and st: "\<And>q rc. rc \<in> set (reactions (store s' q)) \<Longrightarrow>
               rc \<in> set (reactions (store s q)) \<or> reaction_targets rc \<inter> dprot n = {}"
    and qu: "\<And>j. j \<in> set (queue s') \<Longrightarrow> j \<in> set (queue s) \<or> job_targets j \<inter> dprot n = {} \<or>
               (\<exists>q rc c. q \<noteq> n + 1 \<and> rc \<in> set (reactions (store s q)) \<and> j = reaction_job c rc)"
    and ti: "\<And>t. t \<in> set (timers s') \<Longrightarrow> t \<in> set (timers s) \<or> cb_targets (snd t) \<inter> dprot n = {}"
    and pr: "\<And>p. p \<in> dprot n \<Longrightarrow> pstate (store s' p) = pstate (store s p) \<and>
               resolved (store s' p) = resolved (store s p)"
  shows "delay_inv r n s'"
proof -
  from g have b: "n + 1 < next_id s" and gs: "delay_store r n s"
    and gq: "delay_queue r n s" and gt: "delay_timers n s" and gl: "delay_lock n s"
    and gp: "delay_pstate r n s"
    by (simp_all add: delay_inv_def)
  have p1: "pstate (store s' (n + 1)) = pstate (store s (n + 1))" "pstate (store s' n) = pstate (store s n)"
    using pr[of n] pr[of "n + 1"] by (simp_all add: dprot_def)
  have 1: "delay_store r n s'"
    unfolding delay_store_def using st gs[unfolded delay_store_def] by blast
  have 2: "delay_queue r n s'"
    unfolding delay_queue_def
  proof (intro ballI impI)
    fix j assume j: "j \<in> set (queue s')" and t: "job_targets j \<inter> dprot n \<noteq> {}"
    from qu[OF j] t consider (old) "j \<in> set (queue s)"
      | (new) q rc c where "q \<noteq> n + 1" "rc \<in> set (reactions (store s q))" "j = reaction_job c rc"
      by blast
    then show "\<exists>c. j = reaction_job c (delay_reaction r n) \<and> pstate (store s' (n + 1)) = settled_as c"
    proof cases
      case old
      with gq t show ?thesis unfolding delay_queue_def p1 by blast
    next
      case new
      from t new(3) job_targets_reaction_job[of c rc] have "reaction_targets rc \<inter> dprot n \<noteq> {}"
        by blast
      with gs new(2) have "q = n + 1" unfolding delay_store_def by blast
      with new(1) show ?thesis by simp
    qed
  qed
  have 3: "delay_timers n s'"
    unfolding delay_timers_def using ti gt[unfolded delay_timers_def] by blast
  have 4: "delay_lock n s'"
    unfolding delay_lock_def using pr gl[unfolded delay_lock_def] by simp
  have 5: "delay_pstate r n s'"
    using gp unfolding delay_pstate_def p1 .
  from b nid 1 2 3 4 5 show ?thesis by (simp add: delay_inv_def)
qed

lemma delay_inv_new_promise: "delay_inv r n s \<Longrightarrow> delay_inv r n (snd (new_promise s))"
  apply (frule delay_inv_frame[where s' = "snd (new_promise s)"])
  apply (auto simp: delay_inv_def dprot_def split: if_splits)
  done

lemma delay_inv_lock: "delay_inv r n s \<Longrightarrow> p \<notin> dprot n \<Longrightarrow> delay_inv r n (lock p s)"
  apply (erule delay_inv_frame)
  apply auto
  done

lemma delay_inv_enqueue: "delay_inv r n s \<Longrightarrow> \<forall>j\<in>set js. job_targets j \<inter> dprot n = {} \<Longrightarrow> delay_inv r n (enqueue js s)"
  apply (erule delay_inv_frame)
  apply auto
  done

lemma delay_inv_settle: "delay_inv r n s \<Longrightarrow> p \<notin> dprot n \<Longrightarrow> delay_inv r n (settle p c s)"
  apply (erule delay_inv_frame)
       apply simp
      apply (simp split: if_splits)
     apply (simp split: if_splits)
     apply (auto simp: dprot_def)[1]
    apply simp
   apply auto
  done

lemma delay_inv_perform_then:
  "delay_inv r n s \<Longrightarrow> reaction_targets (Reaction f h cap) \<inter> dprot n = {} \<Longrightarrow>
   delay_inv r n (perform_then p f h cap s)"
  apply (erule delay_inv_frame)
       apply simp
      apply (simp split: if_splits)
      apply blast
     apply (simp split: pstate.splits)
      apply (auto simp: reaction_targets_def)
  done

lemma delay_inv_queue_update:
  "delay_inv r n s \<Longrightarrow> set js \<subseteq> set (queue s) \<Longrightarrow> delay_inv r n (s\<lparr>queue := js\<rparr>)"
  apply (erule delay_inv_frame)
  apply auto
  done

lemma delay_inv_timers_update:
  "delay_inv r n s \<Longrightarrow> \<forall>t\<in>set ts. t \<in> set (timers s) \<or> cb_targets (snd t) \<inter> dprot n = {} \<Longrightarrow>
   delay_inv r n (s\<lparr>timers := ts, now := k\<rparr>)"
  apply (erule delay_inv_frame)
  apply auto
  done

lemma delay_inv_resolve_promise: "delay_inv r n s \<Longrightarrow> p \<notin> dprot n \<Longrightarrow> delay_inv r n (resolve_promise p v s)"
  by (cases v)
    (auto simp: resolve_promise_def simp del: then_of.simps split: then_lookup.splits
      intro: delay_inv_settle delay_inv_enqueue)

lemma delay_inv_resolve_fn: "delay_inv r n s \<Longrightarrow> p \<notin> dprot n \<Longrightarrow> delay_inv r n (resolve_fn p v s)"
  by (simp add: resolve_fn_def delay_inv_resolve_promise delay_inv_lock)

lemma delay_inv_reject_fn: "delay_inv r n s \<Longrightarrow> p \<notin> dprot n \<Longrightarrow> delay_inv r n (reject_fn p v s)"
  by (simp add: reject_fn_def delay_inv_settle delay_inv_lock)

lemma delay_inv_run_callback:
  "delay_inv r n s \<Longrightarrow> cb_targets cb \<inter> dprot n = {} \<Longrightarrow> delay_inv r n (snd (run_callback cb v s))"
  by (cases cb) (simp_all add: delay_inv_resolve_fn delay_inv_reject_fn delay_inv_resolve_promise delay_inv_settle)

lemma delay_inv_run_handler:
  "delay_inv r n s \<Longrightarrow> handler_targets h \<inter> dprot n = {} \<Longrightarrow> delay_inv r n (snd (run_handler h c s))"
  by (cases h) (simp_all add: delay_inv_run_callback)

lemma delay_inv_resolve_capability:
  "delay_inv r n s \<Longrightarrow> set_option cap \<inter> dprot n = {} \<Longrightarrow> delay_inv r n (resolve_capability cap c s)"
  by (cases cap; cases c) (simp_all add: delay_inv_resolve_fn delay_inv_reject_fn)

lemma delay_inv_then_call:
  assumes "delay_inv r n s" "handler_targets f \<inter> dprot n = {}" "handler_targets h \<inter> dprot n = {}"
  shows "delay_inv r n (snd (then_call p f h s))"
proof -
  from assms(1) have "next_id s \<notin> dprot n" by (auto simp: delay_inv_def dprot_def)
  with assms(2,3) have "reaction_targets (Reaction f h (Some (next_id s))) \<inter> dprot n = {}"
    by (auto simp: reaction_targets_def)
  with delay_inv_new_promise[OF assms(1)] show ?thesis
    by (simp add: delay_inv_perform_then)
qed

lemma delay_inv_run_then:
  "delay_inv r n s \<Longrightarrow> p \<notin> dprot n \<Longrightarrow> delay_inv r n (run_then b p s)"
  by (cases b) (simp_all add: delay_inv_resolve_promise delay_inv_settle)

lemma delay_inv_run_job:
  assumes "delay_inv r n s" "job_targets j \<inter> dprot n = {}"
  shows "delay_inv r n (run_job j s)"
proof (cases j)
  case (ReactionJob h cap c)
  with assms(2) have t: "handler_targets h \<inter> dprot n = {}" "set_option cap \<inter> dprot n = {}" by auto
  from delay_inv_run_handler[OF assms(1) t(1), of c] t(2) show ?thesis
    unfolding ReactionJob by (simp add: split_def Let_def delay_inv_resolve_capability)
next
  case (ThenableJob p q)
  with assms(2) have "p \<notin> dprot n" by simp
  with assms(1) show ?thesis unfolding ThenableJob using delay_inv_then_call[of r n s] by simp
next
  case (ObjectThenJob p b)
  with assms(2) have "p \<notin> dprot n" by simp
  with assms(1) show ?thesis unfolding ObjectThenJob by (simp add: delay_inv_run_then)
qed

lemma delay_inv_lock_settled: "delay_inv r n s \<Longrightarrow> pstate (store s p) \<noteq> Pending \<Longrightarrow> delay_inv r n (lock p s)"
  unfolding delay_inv_def delay_store_def delay_queue_def delay_timers_def delay_lock_def delay_pstate_def
  by auto

lemma delay_inv_guarded_settle:
  assumes g: "delay_inv r n s"
    and j: "(p = n + 1 \<and> c = Normal Undefined) \<or> (p = n \<and> c = Normal r)"
  shows "delay_inv r n (guarded_settle p c s)"
proof (cases "resolved (store s p)")
  case True
  then show ?thesis using g by (simp add: guarded_settle_def)
next
  case False
  show ?thesis
  proof (cases "pstate (store s p) = Pending")
    case np: False
    then have "settle p c (lock p s) = lock p s" by (simp add: settle_def)
    with False np g show ?thesis by (simp add: guarded_settle_def delay_inv_lock_settled)
  next
    case True
    let ?s = "settle p c (lock p s)"
    from g have b: "n + 1 < next_id s" and gs: "delay_store r n s"
      and gq: "delay_queue r n s" and gt: "delay_timers n s" and gl: "delay_lock n s"
      and gp: "delay_pstate r n s"
      by (simp_all add: delay_inv_def)
    have 1: "delay_store r n ?s"
      using gs unfolding delay_store_def by (simp split: if_splits)
    have 2: "delay_queue r n ?s"
      unfolding delay_queue_def
    proof (intro ballI impI)
      fix j assume j': "j \<in> set (queue ?s)" and t: "job_targets j \<inter> dprot n \<noteq> {}"
      from j' True consider (old) "j \<in> set (queue s)"
        | (new) rc where "rc \<in> set (reactions (store s p))" "j = reaction_job c rc"
        by auto
      then show "\<exists>c. j = reaction_job c (delay_reaction r n) \<and> pstate (store ?s (n + 1)) = settled_as c"
      proof cases
        case old
        with gq t obtain c' where c': "j = reaction_job c' (delay_reaction r n)"
          "pstate (store s (n + 1)) = settled_as c'" unfolding delay_queue_def by blast
        from c'(2) True have "p \<noteq> n + 1" by auto
        with c' show ?thesis by auto
      next
        case new
        from t new(2) job_targets_reaction_job[of c rc] have "reaction_targets rc \<inter> dprot n \<noteq> {}"
          by blast
        with gs new(1) have "rc = delay_reaction r n" "p = n + 1" unfolding delay_store_def by blast+
        with new(2) True show ?thesis by auto
      qed
    qed
    have 3: "delay_timers n ?s" using gt unfolding delay_timers_def by simp
    have 4: "delay_lock n ?s" using gl True unfolding delay_lock_def by auto
    have 5: "delay_pstate r n ?s"
      using gp j True unfolding delay_pstate_def by auto
    from b 1 2 3 4 5 have "delay_inv r n ?s" by (simp add: delay_inv_def)
    with False show ?thesis by (simp add: guarded_settle_def)
  qed
qed

lemma run_delay_job:
  "plain_value r \<Longrightarrow>
   run_job (reaction_job (Normal v) (delay_reaction r n)) s = guarded_settle n (Normal r) s"
  by (simp add: delay_reaction_def resolve_fn_plain)

lemma delay_job_targets: "job_targets (reaction_job c (delay_reaction r n)) = {n}"
  by (cases c) (simp_all add: delay_reaction_def)

lemma delay_inv_delay_job:
  assumes g: "delay_inv r n s" and j: "reaction_job c (delay_reaction r n) \<in> set (queue s)"
  shows "\<exists>v. c = Normal v"
proof -
  have "job_targets (reaction_job c (delay_reaction r n)) \<inter> dprot n \<noteq> {}"
    by (simp add: delay_job_targets dprot_def)
  with g j obtain c' where c': "reaction_job c (delay_reaction r n) = reaction_job c' (delay_reaction r n)"
    "pstate (store s (n + 1)) = settled_as c'"
    unfolding delay_inv_def delay_queue_def by blast
  from c'(1) have "c = c'" by (cases c; cases c') (auto simp: delay_reaction_def)
  with c'(2) g show ?thesis unfolding delay_inv_def delay_pstate_def by (cases c) auto
qed

lemma delay_inv_tick:
  assumes g: "delay_inv r n s" and r: "plain_value r"
  shows "delay_inv r n (tick s)"
proof (cases "queue s")
  case Nil
  with g show ?thesis by (simp add: tick_def)
next
  case (Cons j js)
  from g have g': "delay_inv r n (s\<lparr>queue := js\<rparr>)" using Cons by (auto intro: delay_inv_queue_update)
  show ?thesis
  proof (cases "job_targets j \<inter> dprot n = {}")
    case True
    with g' Cons show ?thesis by (simp add: tick_def delay_inv_run_job)
  next
    case False
    with g Cons obtain c where c: "j = reaction_job c (delay_reaction r n)"
      unfolding delay_inv_def delay_queue_def by auto
    with Cons have "reaction_job c (delay_reaction r n) \<in> set (queue s)" by simp
    from delay_inv_delay_job[OF g this] obtain v where "c = Normal v" by blast
    with c have j: "j = reaction_job (Normal v) (delay_reaction r n)" by simp
    have "tick s = guarded_settle n (Normal r) (s\<lparr>queue := js\<rparr>)"
      unfolding tick_Cons[OF Cons] j by (rule run_delay_job[OF r])
    with g' show ?thesis by (simp add: delay_inv_guarded_settle)
  qed
qed

lemma delay_inv_ticks: "delay_inv r n s \<Longrightarrow> plain_value r \<Longrightarrow> delay_inv r n (ticks m s)"
  by (induction m arbitrary: s) (simp_all add: delay_inv_tick)

lemma delay_inv_fire: "delay_inv r n s \<Longrightarrow> delay_inv r n (fire i s)"
proof (cases "i < length (timers s)")
  case False
  assume "delay_inv r n s"
  with False show ?thesis by (simp add: fire_def)
next
  case True
  assume g: "delay_inv r n s"
  obtain due cb where t: "timers s ! i = (due, cb)" by (cases "timers s ! i")
  with True have m: "(due, cb) \<in> set (timers s)" by (metis nth_mem)
  let ?s0 = "s\<lparr>timers := take i (timers s) @ drop (Suc i) (timers s), now := max (now s) due\<rparr>"
  have g0: "delay_inv r n ?s0"
    using g by (rule delay_inv_timers_update) (auto dest: in_set_takeD in_set_dropD)
  show ?thesis
  proof (cases "cb_targets cb \<inter> dprot n = {}")
    case e: True
    from delay_inv_run_callback[OF g0 e] True t show ?thesis by (simp add: fire_def)
  next
    case False
    with g m have "cb = ResolveFn (n + 1)" unfolding delay_inv_def delay_timers_def by fastforce
    with True t delay_inv_guarded_settle[OF g0, of "n + 1" "Normal Undefined"] show ?thesis
      by (simp add: fire_def resolve_fn_plain)
  qed
qed

lemma delay_inv_set_timeout: "delay_inv r n s \<Longrightarrow> cb_targets cb \<inter> dprot n = {} \<Longrightarrow> delay_inv r n (set_timeout cb ms s)"
  unfolding set_timeout_def
  apply (erule delay_inv_frame)
  apply auto
  done

lemma delay_inv_event:
  assumes "delay_inv r n s" "plain_value r" "event_targets e \<inter> dprot n = {}"
  shows "delay_inv r n (apply_event e s)"
proof (cases e)
  case (Await p f h)
  with assms show ?thesis
    by (auto simp: await_Builtin reaction_targets_def intro!: delay_inv_perform_then)
next
  case (Then p f h)
  with assms show ?thesis using delay_inv_then_call[of r n s f h p] by auto
qed (use assms in \<open>auto simp: delay_inv_tick delay_inv_fire delay_inv_run_callback delay_inv_new_promise delay_inv_set_timeout\<close>)

lemma delay_inv_events:
  "delay_inv r n s \<Longrightarrow> plain_value r \<Longrightarrow> outside (dprot n) es \<Longrightarrow> delay_inv r n (run_events es s)"
  by (induction es arbitrary: s) (simp_all add: outside_def delay_inv_event)

lemma set_timeout_simps [simp]:
  "next_id (set_timeout cb ms s) = next_id s"
  "store (set_timeout cb ms s) = store s"
  "queue (set_timeout cb ms s) = queue s"
  "timers (set_timeout cb ms s) = timers s @ [(now s + nat ms, cb)]"
  "now (set_timeout cb ms s) = now s"
  by (simp_all add: set_timeout_def)

lemma delayWithResult_fst [simp]: "fst (delayWithResult r ms s) = next_id s"
  by (simp add: delayWithResult_def delay_def split_def Let_def)

lemma delayWithResult_snd: "snd (delayWithResult r ms s) = delay_setup r ms s"
  by (simp add: delayWithResult_def delay_def delay_setup_def await_Builtin split_def Let_def)

lemma delay_inv_delay_setup:
  assumes w: "well_formed s"
  shows "delay_inv r (next_id s) (delay_setup r ms s)"
proof -
  let ?n = "next_id s" and ?s = "delay_setup r ms s"
  from w have w1: "\<And>q rc. rc \<in> set (reactions (store s q)) \<Longrightarrow> reaction_targets rc \<inter> dprot ?n = {}"
    and w2: "\<And>j. j \<in> set (queue s) \<Longrightarrow> job_targets j \<inter> dprot ?n = {}"
    and w3: "\<And>t. t \<in> set (timers s) \<Longrightarrow> cb_targets (snd t) \<inter> dprot ?n = {}"
    unfolding well_formed_def dprot_def by fastforce+
  have 1: "delay_store r ?n ?s"
    unfolding delay_store_def
  proof (intro allI impI)
    fix q rc assume "rc \<in> set (reactions (store ?s q))" "reaction_targets rc \<inter> dprot ?n \<noteq> {}"
    with w1[of rc q] show "rc = delay_reaction r ?n \<and> q = ?n + 1"
      by (auto simp: delay_setup_def delay_reaction_def split: if_splits)
  qed
  have 2: "delay_queue r ?n ?s"
    unfolding delay_queue_def using w2 by (auto simp: delay_setup_def)
  have 3: "delay_timers ?n ?s"
    unfolding delay_timers_def using w3 by (auto simp: delay_setup_def)
  have 4: "delay_lock ?n ?s"
    unfolding delay_lock_def by (auto simp: delay_setup_def dprot_def)
  have 5: "delay_pstate r ?n ?s"
    unfolding delay_pstate_def by (simp add: delay_setup_def)
  have "?n + 1 < next_id ?s" by (simp add: delay_setup_def)
  with 1 2 3 4 5 show ?thesis by (simp add: delay_inv_def)
qed

lemma delay_stage_delay_setup: "delay_stage (now s + nat ms) r (next_id s) (delay_setup r ms s)"
  unfolding delay_stage_def by (simp add: delay_setup_def delay_reaction_def)

text \<open>Promise jobs and calls of functions leave the timers as they are.\<close>

lemma timers_resolve_promise [simp]: "timers (resolve_promise p v s) = timers s"
  by (cases v) (simp_all add: resolve_promise_def del: then_of.simps split: then_lookup.splits)

lemma timers_resolve_fn [simp]: "timers (resolve_fn p v s) = timers s"
  by (simp add: resolve_fn_def)

lemma timers_reject_fn [simp]: "timers (reject_fn p v s) = timers s"
  by (simp add: reject_fn_def)

lemma timers_run_callback [simp]: "timers (snd (run_callback cb v s)) = timers s"
  by (cases cb) simp_all

lemma timers_run_handler [simp]: "timers (snd (run_handler h c s)) = timers s"
  by (cases h) simp_all

lemma timers_resolve_capability [simp]: "timers (resolve_capability cap c s) = timers s"
  by (cases cap; cases c) simp_all

lemma timers_run_then [simp]: "timers (run_then b p s) = timers s"
  by (cases b) simp_all

lemma timers_run_job [simp]: "timers (run_job j s) = timers s"
  by (cases j) (simp_all add: split_def Let_def)

lemma timers_tick [simp]: "timers (tick s) = timers s"
  by (cases "queue s") (simp_all add: tick_def)

lemma delay_stage_step:
  assumes d: "delay_stage due r n s" and st: "step_rel (dprot n) s s'"
    and ti: "set (timers s) \<subseteq> set (timers s')"
  shows "delay_stage due r n s'"
proof -
  from st have p: "pstate (store s' n) = pstate (store s n)"
      "pstate (store s' (n + 1)) = pstate (store s (n + 1))"
    and rr: "set (reactions (store s (n + 1))) \<subseteq> set (reactions (store s' (n + 1)))"
    and q: "set (queue s) \<subseteq> set (queue s')"
    unfolding step_rel_def dprot_def by auto
  from d show ?thesis unfolding delay_stage_def p using rr q ti by blast
qed

lemma delay_inv_unresolved:
  "delay_inv r n s \<Longrightarrow> p \<in> dprot n \<Longrightarrow> pstate (store s p) = Pending \<Longrightarrow> \<not> resolved (store s p)"
  by (simp add: delay_inv_def delay_lock_def)

lemma guarded_settle_result:
  assumes g: "delay_inv r n s"
  shows "pstate (store (guarded_settle n (Normal r) s) n) = Fulfilled r"
proof (cases "pstate (store s n) = Pending")
  case True
  from delay_inv_unresolved[OF g _ True] have "\<not> resolved (store s n)" by (simp add: dprot_def)
  from guarded_settle_pending(3)[OF True this, of "Normal r" n] show ?thesis by simp
next
  case False
  with g have f: "pstate (store s n) = Fulfilled r" unfolding delay_inv_def delay_pstate_def by blast
  then show ?thesis by (simp add: guarded_settle_def)
qed

lemma delay_stage_tick:
  assumes g: "delay_inv r n s" and r: "plain_value r" and d: "delay_stage due r n s"
  shows "delay_stage due r n (tick s)"
proof (cases "queue s")
  case Nil
  with d show ?thesis by (simp add: tick_def)
next
  case (Cons j js)
  have lt: "\<forall>p\<in>dprot n. p < next_id s" using g by (auto simp: delay_inv_def dprot_def)
  show ?thesis
  proof (cases "job_targets j \<inter> dprot n = {}")
    case True
    have st: "step_rel (dprot n) (s\<lparr>queue := js\<rparr>) (tick s)"
      using Cons True lt by (rule step_tick_unprot)
    have "\<And>c. reaction_job c (delay_reaction r n) \<in> set (queue s) \<Longrightarrow>
        reaction_job c (delay_reaction r n) \<in> set js"
      using Cons True by (auto simp: delay_job_targets dprot_def)
    with d have "delay_stage due r n (s\<lparr>queue := js\<rparr>)" unfolding delay_stage_def by (simp; blast)
    then show ?thesis using st by (rule delay_stage_step) simp
  next
    case False
    with g Cons obtain c where c: "j = reaction_job c (delay_reaction r n)"
      unfolding delay_inv_def delay_queue_def by auto
    with Cons have "reaction_job c (delay_reaction r n) \<in> set (queue s)" by simp
    from delay_inv_delay_job[OF g this] obtain v where "c = Normal v" by blast
    with c have j: "j = reaction_job (Normal v) (delay_reaction r n)" by simp
    have t: "tick s = guarded_settle n (Normal r) (s\<lparr>queue := js\<rparr>)"
      unfolding tick_Cons[OF Cons] j by (rule run_delay_job[OF r])
    have "delay_inv r n (s\<lparr>queue := js\<rparr>)" using g Cons by (auto intro: delay_inv_queue_update)
    from guarded_settle_result[OF this] show ?thesis unfolding delay_stage_def t by simp
  qed
qed

lemma delay_job_runs:
  assumes "delay_inv r n s" "plain_value r"
    "queue s = pre @ reaction_job c (delay_reaction r n) # post" "length pre = k"
  shows "pstate (store (ticks (Suc k) s) n) = Fulfilled r"
  using assms
proof (induction k arbitrary: s pre post)
  case 0
  then have q: "queue s = reaction_job c (delay_reaction r n) # post" by simp
  then have "reaction_job c (delay_reaction r n) \<in> set (queue s)" by simp
  from delay_inv_delay_job[OF 0(1) this] obtain v where v: "c = Normal v" by blast
  have t: "tick s = guarded_settle n (Normal r) (s\<lparr>queue := post\<rparr>)"
    unfolding tick_Cons[OF q] v by (rule run_delay_job[OF 0(2)])
  have "delay_inv r n (s\<lparr>queue := post\<rparr>)" using 0(1) q by (auto intro: delay_inv_queue_update)
  from guarded_settle_result[OF this] show ?case by (simp add: t)
next
  case (Suc k)
  from Suc.prems(4) obtain j0 pre' where p: "pre = j0 # pre'" "length pre' = k"
    by (cases pre) auto
  with Suc.prems(3) have q: "queue s = j0 # pre' @ reaction_job c (delay_reaction r n) # post"
    by simp
  have "step_rel {} (s\<lparr>queue := pre' @ reaction_job c (delay_reaction r n) # post\<rparr>) (tick s)"
    using q by (rule step_tick_unprot) auto
  then obtain new where "queue (tick s) = (pre' @ reaction_job c (delay_reaction r n) # post) @ new"
    unfolding step_rel_def by auto
  then have "queue (tick s) = pre' @ reaction_job c (delay_reaction r n) # (post @ new)" by simp
  from Suc.IH[OF delay_inv_tick[OF Suc.prems(1,2)] Suc.prems(2) this p(2)] show ?case by simp
qed

lemma delay_stage_job_decides:
  assumes g: "delay_inv r n s" and r: "plain_value r"
    and j: "reaction_job c (delay_reaction r n) \<in> set (queue s)"
  shows "\<exists>m. pstate (store (ticks m s) n) = Fulfilled r"
proof -
  from split_list[OF j] obtain pre post where
    "queue s = pre @ reaction_job c (delay_reaction r n) # post" by blast
  from delay_job_runs[OF g r this refl] show ?thesis by blast
qed

lemma remove_nth_mem:
  assumes "x \<in> set xs" "i < length xs" "x \<noteq> xs ! i"
  shows "x \<in> set (take i xs @ drop (Suc i) xs)"
proof -
  from assms(1) have "x \<in> set (take i xs @ xs ! i # drop (Suc i) xs)"
    by (metis id_take_nth_drop[OF assms(2)])
  with assms(3) show ?thesis by auto
qed

lemma delay_stage_fire:
  assumes g: "delay_inv r n s" and d: "delay_stage due r n s"
  shows "delay_stage due r n (fire i s)"
proof (cases "i < length (timers s)")
  case False
  with d show ?thesis by (simp add: fire_def)
next
  case True
  obtain due' cb where t: "timers s ! i = (due', cb)" by (cases "timers s ! i")
  with True have m: "(due', cb) \<in> set (timers s)" by (metis nth_mem)
  let ?ts = "take i (timers s) @ drop (Suc i) (timers s)"
  let ?s0 = "s\<lparr>timers := ?ts, now := max (now s) due'\<rparr>"
  have f: "fire i s = snd (run_callback cb Undefined ?s0)" using True t by (simp add: fire_def)
  have g0: "delay_inv r n ?s0"
    using g by (rule delay_inv_timers_update) (auto dest: in_set_takeD in_set_dropD)
  have lt: "\<forall>p\<in>dprot n. p < next_id ?s0" using g by (auto simp: delay_inv_def dprot_def)
  show ?thesis
  proof (cases "cb_targets cb \<inter> dprot n = {}")
    case e: True
    have ne: "cb \<noteq> ResolveFn (n + 1)" using e by (auto simp: dprot_def)
    have keep: "(due, ResolveFn (n + 1)) \<in> set (timers s) \<Longrightarrow> (due, ResolveFn (n + 1)) \<in> set ?ts"
    proof -
      assume a: "(due, ResolveFn (n + 1)) \<in> set (timers s)"
      have "(due, ResolveFn (n + 1)) \<noteq> timers s ! i" using t ne by auto
      with a True show ?thesis by (rule remove_nth_mem)
    qed
    from d keep have d0: "delay_stage due r n ?s0" unfolding delay_stage_def by (simp; blast)
    have st: "step_rel (dprot n) ?s0 (fire i s)" unfolding f by (rule step_run_callback[OF e])
    from d0 st show ?thesis by (rule delay_stage_step) (simp add: f)
  next
    case False
    with g m have cb: "cb = ResolveFn (n + 1)" unfolding delay_inv_def delay_timers_def by fastforce
    have f': "fire i s = guarded_settle (n + 1) (Normal Undefined) ?s0"
      unfolding f cb by (simp add: resolve_fn_plain)
    show ?thesis
    proof (cases "pstate (store s (n + 1)) = Pending")
      case pe: True
      then have p0: "pstate (store ?s0 (n + 1)) = Pending" by simp
      have u0: "\<not> resolved (store ?s0 (n + 1))"
        using delay_inv_unresolved[OF g0 _ p0] by (simp add: dprot_def)
      note gs = guarded_settle_pending[OF p0 u0, of "Normal Undefined"]
      have res: "pstate (store (fire i s) n) = pstate (store s n)"
        and p: "pstate (store (fire i s) (n + 1)) \<noteq> Pending"
        unfolding f' gs(3) by simp_all
      show ?thesis
      proof (cases "pstate (store s n) = Fulfilled r")
        case True
        with res show ?thesis unfolding delay_stage_def by simp
      next
        case False
        with d pe have a: "delay_reaction r n \<in> set (reactions (store s (n + 1)))"
          "pstate (store s n) = Pending"
          unfolding delay_stage_def by auto
        from a(1) have "reaction_job (Normal Undefined) (delay_reaction r n) \<in> set (queue (fire i s))"
          unfolding f' gs(1) by simp
        then have "\<exists>c. reaction_job c (delay_reaction r n) \<in> set (queue (fire i s))" by blast
        with a(2) res p show ?thesis unfolding delay_stage_def by simp
      qed
    next
      case np: False
      have eqs: "\<And>q. pstate (store (fire i s) q) = pstate (store s q)"
        "queue (fire i s) = queue s"
        unfolding f' using np by (simp_all add: guarded_settle_def)
      from d np show ?thesis unfolding delay_stage_def eqs by blast
    qed
  qed
qed

lemma delay_inv_step_event:
  assumes "e \<noteq> Tick" "\<forall>i. e \<noteq> Fire i" "event_targets e \<inter> Q = {}" "\<forall>p\<in>Q. p < next_id s"
  shows "step_rel Q s (apply_event e s)"
proof (cases e)
  case (Call cb v)
  with assms(3) show ?thesis by (simp add: step_run_callback)
next
  case New
  with assms(4) show ?thesis by (simp add: step_new_promise)
next
  case (Then p f r)
  with assms(4) show ?thesis using step_then_call[of Q s p f r] by simp
next
  case (Await p f r)
  then show ?thesis by (simp add: await_Builtin step_perform_then)
next
  case (SetTimeout cb ms)
  then show ?thesis by (simp add: step_set_timeout)
qed (use assms in auto)

lemma timers_event:
  "e \<noteq> Tick \<Longrightarrow> \<forall>i. e \<noteq> Fire i \<Longrightarrow> set (timers s) \<subseteq> set (timers (apply_event e s))"
  by (cases e) (auto simp: await_Builtin)

lemma delay_stage_event:
  assumes g: "delay_inv r n s" and r: "plain_value r" and d: "delay_stage due r n s"
    and e: "event_targets e \<inter> dprot n = {}"
  shows "delay_stage due r n (apply_event e s)"
proof (cases "e = Tick \<or> (\<exists>i. e = Fire i)")
  case True
  then show ?thesis
  proof
    assume "e = Tick"
    with delay_stage_tick[OF g r d] show ?thesis by simp
  next
    assume "\<exists>i. e = Fire i"
    then obtain i where "e = Fire i" by blast
    with delay_stage_fire[OF g d, of i] show ?thesis by simp
  qed
next
  case False
  have lt: "\<forall>p\<in>dprot n. p < next_id s" using g by (auto simp: delay_inv_def dprot_def)
  from False have ne: "e \<noteq> Tick" "\<forall>i. e \<noteq> Fire i" by auto
  have st: "step_rel (dprot n) s (apply_event e s)"
    using ne e lt by (rule delay_inv_step_event)
  have ti: "set (timers s) \<subseteq> set (timers (apply_event e s))"
    using ne by (rule timers_event)
  show ?thesis by (rule delay_stage_step[OF d st ti])
qed

lemma delay_stage_events:
  "delay_inv r n s \<Longrightarrow> plain_value r \<Longrightarrow> delay_stage due r n s \<Longrightarrow> outside (dprot n) es \<Longrightarrow>
   delay_stage due r n (run_events es s)"
proof (induction es arbitrary: s)
  case Nil
  then show ?case by simp
next
  case (Cons e es)
  from Cons.prems(4) have e: "event_targets e \<inter> dprot n = {}" and es: "outside (dprot n) es"
    by (simp_all add: outside_def)
  from Cons.IH[OF delay_inv_event[OF Cons.prems(1,2) e] Cons.prems(2) delay_stage_event[OF Cons.prems(1,2,3) e] es]
  show ?case by simp
qed

lemma fire_own_timer:
  assumes g: "delay_inv r n s" and i: "i < length (timers s)" and t: "timers s ! i = (due, ResolveFn (n + 1))"
  shows "pstate (store (fire i s) (n + 1)) \<noteq> Pending"
proof -
  let ?s0 = "s\<lparr>timers := take i (timers s) @ drop (Suc i) (timers s), now := max (now s) due\<rparr>"
  have f: "fire i s = guarded_settle (n + 1) (Normal Undefined) ?s0"
    using i t by (simp add: fire_def resolve_fn_plain)
  have g0: "delay_inv r n ?s0"
    using g by (rule delay_inv_timers_update) (auto dest: in_set_takeD in_set_dropD)
  show ?thesis
  proof (cases "pstate (store s (n + 1)) = Pending")
    case True
    then have p0: "pstate (store ?s0 (n + 1)) = Pending" by simp
    have u0: "\<not> resolved (store ?s0 (n + 1))"
      using delay_inv_unresolved[OF g0 _ p0] by (simp add: dprot_def)
    from guarded_settle_pending(3)[OF p0 u0, of "Normal Undefined" "n + 1"] show ?thesis
      unfolding f by simp
  next
    case False
    then show ?thesis unfolding f by (simp add: guarded_settle_def)
  qed
qed

lemma delay_stage_settled_decides:
  assumes g: "delay_inv r n s" and r: "plain_value r" and d: "delay_stage due r n s"
    and p: "pstate (store s (n + 1)) \<noteq> Pending"
  shows "\<exists>m. pstate (store (ticks m s) n) = Fulfilled r"
proof -
  from d p consider c where "reaction_job c (delay_reaction r n) \<in> set (queue s)"
    | "pstate (store s n) = Fulfilled r"
    unfolding delay_stage_def by blast
  then show ?thesis
  proof cases
    case 1
    from delay_stage_job_decides[OF g r this] show ?thesis .
  next
    case 2
    then have "pstate (store (ticks 0 s) n) = Fulfilled r" by simp
    then show ?thesis by blast
  qed
qed

text \<open>
  As for a race, \<open>s\<close> is any well-formed state in which \<^verbatim>\<open>delayWithResult\<close> is called, and \<open>es\<close>
  are any events of the surrounding program outside the two promises of the call.
\<close>

text \<open>
  Claim C10, amended.  For every plain value \<open>r\<close> (not a promise, and reading its \<^verbatim>\<open>then\<close>
  gives nothing that can be called) and every duration \<open>ms\<close>, the promise returned by
  \<^verbatim>\<open>delayWithResult(r, ms)\<close> is never settled with anything but \<open>r\<close>.  In every state reached
  after the call through events of the surrounding program, it is fulfilled with exactly
  \<open>r\<close>; or it is pending and finitely many turns of the job queue fulfil it with \<open>r\<close>; or it
  is pending, the timer set by \<^verbatim>\<open>delay\<close> (due \<open>ms\<close> milliseconds after the call) is still
  waiting, and once that timer fires, finitely many turns of the job queue fulfil it with
  \<open>r\<close>.
\<close>

theorem delay_resolves_with_result:
  assumes "well_formed s" "plain_value r" "outside (dprot (next_id s)) es"
  shows "pstate (store (run_events es (snd (delayWithResult r ms s)))
           (fst (delayWithResult r ms s))) = Fulfilled r \<or>
         (pstate (store (run_events es (snd (delayWithResult r ms s)))
            (fst (delayWithResult r ms s))) = Pending \<and>
          ((\<exists>m. pstate (store (ticks m (run_events es (snd (delayWithResult r ms s))))
                   (fst (delayWithResult r ms s))) = Fulfilled r) \<or>
           (\<exists>i<length (timers (run_events es (snd (delayWithResult r ms s)))).
               timers (run_events es (snd (delayWithResult r ms s))) ! i =
                 (now s + nat ms, ResolveFn (fst (delayWithResult r ms s) + 1)) \<and>
               (\<exists>m. pstate (store (ticks m (fire i (run_events es (snd (delayWithResult r ms s)))))
                        (fst (delayWithResult r ms s))) = Fulfilled r))))"
proof -
  let ?n = "next_id s" and ?s = "run_events es (delay_setup r ms s)"
  let ?due = "now s + nat ms"
  have g: "delay_inv r ?n ?s" using delay_inv_delay_setup[OF assms(1)] assms(2,3) by (rule delay_inv_events)
  have d: "delay_stage ?due r ?n ?s"
    using delay_inv_delay_setup[OF assms(1)] assms(2) delay_stage_delay_setup assms(3) by (rule delay_stage_events)
  from d consider (wait) "pstate (store ?s (?n + 1)) = Pending" "pstate (store ?s ?n) = Pending"
      "(?due, ResolveFn (?n + 1)) \<in> set (timers ?s)"
    | (job) "pstate (store ?s (?n + 1)) \<noteq> Pending" "pstate (store ?s ?n) = Pending"
    | (fin) "pstate (store ?s ?n) = Fulfilled r"
    unfolding delay_stage_def by blast
  then have "pstate (store ?s ?n) = Fulfilled r \<or>
         (pstate (store ?s ?n) = Pending \<and>
          ((\<exists>m. pstate (store (ticks m ?s) ?n) = Fulfilled r) \<or>
           (\<exists>i<length (timers ?s). timers ?s ! i = (?due, ResolveFn (?n + 1)) \<and>
               (\<exists>m. pstate (store (ticks m (fire i ?s)) ?n) = Fulfilled r))))"
  proof cases
    case wait
    from wait(3) obtain i where i: "i < length (timers ?s)" "timers ?s ! i = (?due, ResolveFn (?n + 1))"
      by (auto simp: in_set_conv_nth)
    from delay_stage_settled_decides[OF delay_inv_fire[OF g] assms(2) delay_stage_fire[OF g d] fire_own_timer[OF g i]]
    have "\<exists>m. pstate (store (ticks m (fire i ?s)) ?n) = Fulfilled r" .
    with i wait(2) show ?thesis by blast
  next
    case job
    from delay_stage_settled_decides[OF g assms(2) d job(1)] job(2) show ?thesis by blast
  next
    case fin
    then show ?thesis by blast
  qed
  then show ?thesis unfolding delayWithResult_snd delayWithResult_fst .
qed

lemmas delay_eval = delayWithResult_snd delay_setup_def then_call_def one_fulfilled_def
  timer_fires_def empty_state_def eval_nat_numeral

lemma well_formed_empty: "well_formed empty_state"
  by (simp add: well_formed_def empty_state_def)

lemma plain_data: "plain_value (Str ''data'')"
  by simp

lemma outside_timer_fires: "outside (dprot (next_id empty_state)) timer_fires"
  by (simp add: outside_def timer_fires_def)

theorem delay_resolves_with_result_witness:
  "well_formed empty_state \<and> plain_value (Str ''data'') \<and>
   outside (dprot (next_id empty_state)) timer_fires \<and>
   pstate (store (run_events timer_fires (snd (delayWithResult (Str ''data'') 1000 empty_state)))
     (fst (delayWithResult (Str ''data'') 1000 empty_state))) = Fulfilled (Str ''data'')"
proof -
  have "pstate (store (run_events timer_fires (snd (delayWithResult (Str ''data'') 1000 empty_state)))
     (fst (delayWithResult (Str ''data'') 1000 empty_state))) \<noteq> Pending"
    by (simp add: delay_eval eval_simps del: access_simps set_timeout_simps)
  with delay_resolves_with_result[OF well_formed_empty plain_data outside_timer_fires, of 1000]
    well_formed_empty outside_timer_fires
  show ?thesis by simp
qed

text \<open>
  Claim C10 as stated fails when the value passed in is not plain: returning it from the
  async function makes the returned promise adopt what its \<^verbatim>\<open>then\<close> reports.  For a
  promise already fulfilled with \<open>5\<close> the returned promise is fulfilled with \<open>5\<close>, not with
  the promise (the behaviour the comment in \<^verbatim>\<open>properRace\<close>, lines 38 to 40, describes); for
  the object \<^verbatim>\<open>{ then(f) { f(7) } }\<close> it is fulfilled with \<open>7\<close>, not with the object; and for
  the object \<^verbatim>\<open>{ get then() { throw "no" } }\<close> it is rejected.
\<close>

theorem delay_result_promise_counterexample:
  "pstate (store one_fulfilled 0) = Fulfilled (Num 5) \<and>
   pstate (store (run_events [Fire 0, Tick, Tick, Tick]
       (snd (delayWithResult (PromiseRef 0) 10 one_fulfilled)))
     (fst (delayWithResult (PromiseRef 0) 10 one_fulfilled))) = Fulfilled (Num 5) \<and>
   Fulfilled (Num 5) \<noteq> Fulfilled (PromiseRef 0) \<and>
   pstate (store (run_events [Fire 0, Tick, Tick]
       (snd (delayWithResult then_seven 10 empty_state)))
     (fst (delayWithResult then_seven 10 empty_state))) = Fulfilled (Num 7) \<and>
   Fulfilled (Num 7) \<noteq> Fulfilled then_seven \<and>
   pstate (store (run_events [Fire 0, Tick]
       (snd (delayWithResult then_throws 10 empty_state)))
     (fst (delayWithResult then_throws 10 empty_state))) = Rejected (Str ''no'')"
  by (simp add: delay_eval then_seven_def then_throws_def eval_simps
      del: access_simps set_timeout_simps)

section \<open>Reachable states are well formed\<close>

text \<open>
  Every operation of the machinery preserves well-formedness, hence so do the events of the
  environment and the calls of the utilities, which are sequences of events; the states
  reached from the empty state are well formed.
\<close>

lemma well_formed_frame:
  assumes w: "well_formed s" and n: "next_id s \<le> next_id s'"
    and r: "\<And>q rc. rc \<in> set (reactions (store s' q)) \<Longrightarrow>
        (\<exists>q'. rc \<in> set (reactions (store s q'))) \<or> (\<forall>p\<in>reaction_targets rc. p < next_id s')"
    and j: "\<And>j. j \<in> set (queue s') \<Longrightarrow>
        j \<in> set (queue s) \<or> (\<forall>p\<in>job_targets j. p < next_id s')"
    and t: "\<And>t. t \<in> set (timers s') \<Longrightarrow>
        t \<in> set (timers s) \<or> (\<forall>p\<in>cb_targets (snd t). p < next_id s')"
  shows "well_formed s'"
proof -
  have 1: "\<forall>q rc. rc \<in> set (reactions (store s' q)) \<longrightarrow> (\<forall>p\<in>reaction_targets rc. p < next_id s')"
  proof (intro allI impI)
    fix q rc assume "rc \<in> set (reactions (store s' q))"
    from r[OF this] show "\<forall>p\<in>reaction_targets rc. p < next_id s'"
    proof
      assume "\<exists>q'. rc \<in> set (reactions (store s q'))"
      with w have "\<forall>p\<in>reaction_targets rc. p < next_id s" unfolding well_formed_def by blast
      with n show ?thesis by fastforce
    qed
  qed
  have 2: "\<forall>j\<in>set (queue s'). \<forall>p\<in>job_targets j. p < next_id s'"
  proof
    fix j' assume "j' \<in> set (queue s')"
    from j[OF this] show "\<forall>p\<in>job_targets j'. p < next_id s'"
    proof
      assume "j' \<in> set (queue s)"
      with w have "\<forall>p\<in>job_targets j'. p < next_id s" unfolding well_formed_def by blast
      with n show ?thesis by fastforce
    qed
  qed
  have 3: "\<forall>t\<in>set (timers s'). \<forall>p\<in>cb_targets (snd t). p < next_id s'"
  proof
    fix t' assume "t' \<in> set (timers s')"
    from t[OF this] show "\<forall>p\<in>cb_targets (snd t'). p < next_id s'"
    proof
      assume "t' \<in> set (timers s)"
      with w have "\<forall>p\<in>cb_targets (snd t'). p < next_id s" unfolding well_formed_def by blast
      with n show ?thesis by fastforce
    qed
  qed
  from 1 2 3 show ?thesis unfolding well_formed_def by blast
qed

lemma well_formed_new_promise: "well_formed s \<Longrightarrow> well_formed (snd (new_promise s))"
  by (erule well_formed_frame) (auto split: if_splits)

lemma well_formed_lock: "well_formed s \<Longrightarrow> well_formed (lock p s)"
  by (erule well_formed_frame) auto

lemma well_formed_settle:
  assumes w: "well_formed s"
  shows "well_formed (settle p c s)"
  using w
proof (rule well_formed_frame)
  fix j assume j: "j \<in> set (queue (settle p c s))"
  show "j \<in> set (queue s) \<or> (\<forall>p'\<in>job_targets j. p' < next_id (settle p c s))"
  proof (cases "j \<in> set (queue s)")
    case False
    with j obtain rc where rc: "rc \<in> set (reactions (store s p))" "j = reaction_job c rc"
      by (auto split: if_splits)
    from w rc(1) have "\<forall>p\<in>reaction_targets rc. p < next_id s" unfolding well_formed_def by blast
    with job_targets_reaction_job[of c rc] rc(2) show ?thesis by auto
  qed simp
qed (auto split: if_splits)

lemma well_formed_perform_then:
  assumes "well_formed s" "\<forall>p\<in>handler_targets f \<union> handler_targets r \<union> set_option cap. p < next_id s"
  shows "well_formed (perform_then p f r cap s)"
  using assms(1)
proof (rule well_formed_frame)
  fix q rc assume "rc \<in> set (reactions (store (perform_then p f r cap s) q))"
  then show "(\<exists>q'. rc \<in> set (reactions (store s q'))) \<or>
      (\<forall>p'\<in>reaction_targets rc. p' < next_id (perform_then p f r cap s))"
    using assms(2) by (auto simp: reaction_targets_def split: if_splits)
next
  fix j assume "j \<in> set (queue (perform_then p f r cap s))"
  then show "j \<in> set (queue s) \<or> (\<forall>p'\<in>job_targets j. p' < next_id (perform_then p f r cap s))"
    using assms(2) by (cases "pstate (store s p)") auto
qed auto

lemma well_formed_enqueue:
  "well_formed s \<Longrightarrow> \<forall>j\<in>set js. \<forall>p\<in>job_targets j. p < next_id s \<Longrightarrow> well_formed (enqueue js s)"
  by (erule well_formed_frame) auto

lemma well_formed_resolve_promise:
  "well_formed s \<Longrightarrow> p < next_id s \<Longrightarrow> well_formed (resolve_promise p v s)"
  by (cases v)
    (simp_all add: resolve_promise_def well_formed_settle well_formed_enqueue del: then_of.simps
      split: then_lookup.splits)

lemma well_formed_resolve_fn:
  "well_formed s \<Longrightarrow> p < next_id s \<Longrightarrow> well_formed (resolve_fn p v s)"
  by (simp add: resolve_fn_def well_formed_resolve_promise well_formed_lock)

lemma well_formed_reject_fn: "well_formed s \<Longrightarrow> well_formed (reject_fn p v s)"
  by (simp add: reject_fn_def well_formed_settle well_formed_lock)

lemma well_formed_run_callback:
  "well_formed s \<Longrightarrow> \<forall>p\<in>cb_targets cb. p < next_id s \<Longrightarrow> well_formed (snd (run_callback cb v s))"
  by (cases cb)
    (simp_all add: well_formed_resolve_fn well_formed_reject_fn well_formed_resolve_promise
      well_formed_settle)

lemma next_id_run_callback: "next_id s \<le> next_id (snd (run_callback cb v s))"
  by (cases cb)
    (auto simp: resolve_fn_def reject_fn_def resolve_promise_def simp del: then_of.simps
      split: val.splits then_lookup.splits)

lemma well_formed_then_call:
  assumes "well_formed s" "\<forall>p\<in>handler_targets f \<union> handler_targets r. p < next_id s"
  shows "well_formed (snd (then_call p f r s))"
  unfolding then_call_simps
  by (rule well_formed_perform_then[OF well_formed_new_promise[OF assms(1)]])
    (use assms(2) in \<open>auto simp: less_Suc_eq\<close>)

lemma well_formed_run_then:
  "well_formed s \<Longrightarrow> p < next_id s \<Longrightarrow> well_formed (run_then b p s)"
  by (cases b) (simp_all add: well_formed_resolve_promise well_formed_settle)

lemma well_formed_run_job:
  assumes "well_formed s" "\<forall>p\<in>job_targets j. p < next_id s"
  shows "well_formed (run_job j s)"
proof (cases j)
  case (ReactionJob h cap c)
  show ?thesis
  proof (cases h)
    case None
    with ReactionJob assms show ?thesis
      by (cases cap; cases c) (simp_all add: well_formed_resolve_fn well_formed_reject_fn)
  next
    case (Some cb)
    let ?s1 = "snd (run_callback cb (completion_val c) s)"
    have w1: "well_formed ?s1" using assms ReactionJob Some by (intro well_formed_run_callback) auto
    have n1: "next_id s \<le> next_id ?s1" by (rule next_id_run_callback)
    have "well_formed (resolve_capability cap (fst (run_callback cb (completion_val c) s)) ?s1)"
    proof (cases cap)
      case None
      with w1 show ?thesis by simp
    next
      case (Some d)
      with assms(2) ReactionJob n1 have "d < next_id ?s1" by auto
      with w1 Some show ?thesis
        by (cases "fst (run_callback cb (completion_val c) s)")
          (simp_all add: well_formed_resolve_fn well_formed_reject_fn)
    qed
    with ReactionJob Some show ?thesis by (simp add: split_def Let_def)
  qed
next
  case (ThenableJob p q)
  with assms show ?thesis by (simp del: then_call_simps add: well_formed_then_call)
next
  case (ObjectThenJob p b)
  with assms show ?thesis by (simp add: well_formed_run_then)
qed

lemma well_formed_queue_update:
  "well_formed s \<Longrightarrow> set js \<subseteq> set (queue s) \<Longrightarrow> well_formed (s\<lparr>queue := js\<rparr>)"
  by (erule well_formed_frame) auto

lemma well_formed_tick: "well_formed s \<Longrightarrow> well_formed (tick s)"
proof (cases "queue s")
  case (Cons j js)
  assume w: "well_formed s"
  have "well_formed (run_job j (s\<lparr>queue := js\<rparr>))"
  proof (rule well_formed_run_job)
    show "well_formed (s\<lparr>queue := js\<rparr>)" using w by (rule well_formed_queue_update) (use Cons in auto)
    show "\<forall>p\<in>job_targets j. p < next_id (s\<lparr>queue := js\<rparr>)"
      using w Cons unfolding well_formed_def by simp
  qed
  with Cons show ?thesis by (simp add: tick_def)
qed (simp add: tick_def)

lemma well_formed_set_timeout:
  "well_formed s \<Longrightarrow> \<forall>p\<in>cb_targets cb. p < next_id s \<Longrightarrow> well_formed (set_timeout cb ms s)"
  by (erule well_formed_frame) auto

lemma well_formed_fire: "well_formed s \<Longrightarrow> well_formed (fire i s)"
proof (cases "i < length (timers s)")
  case True
  assume w: "well_formed s"
  obtain due cb where t: "timers s ! i = (due, cb)" by (cases "timers s ! i")
  let ?s0 = "s\<lparr>timers := take i (timers s) @ drop (Suc i) (timers s), now := max (now s) due\<rparr>"
  have w0: "well_formed ?s0"
    using w by (rule well_formed_frame) (auto dest: in_set_takeD in_set_dropD)
  from True t have "(due, cb) \<in> set (timers s)" by (metis nth_mem)
  with w have "\<forall>p\<in>cb_targets cb. p < next_id ?s0" unfolding well_formed_def by fastforce
  with w0 have "well_formed (snd (run_callback cb Undefined ?s0))" by (rule well_formed_run_callback)
  with True t show ?thesis by (simp add: fire_def)
qed (simp add: fire_def)

lemma well_formed_event:
  "well_formed s \<Longrightarrow> \<forall>p\<in>event_targets e. p < next_id s \<Longrightarrow> well_formed (apply_event e s)"
  by (cases e)
    (simp_all del: then_call_simps
      add: well_formed_tick well_formed_fire well_formed_run_callback well_formed_new_promise
        well_formed_then_call well_formed_set_timeout await_Builtin well_formed_perform_then)

lemma well_formed_events:
  "well_formed s \<Longrightarrow> admissible es s \<Longrightarrow> well_formed (run_events es s)"
  by (induction es arbitrary: s) (simp_all add: well_formed_event)

lemma properRace_events:
  "snd (properRace first second s) =
     run_events
       [New, Then first (Some (IndexOf 0)) None, Then second (Some (IndexOf 1)) None, New,
        Then (next_id s + 1) (Some (ResolveFn (next_id s + 3))) (Some (RejectFn (next_id s + 3))),
        Then (next_id s + 2) (Some (ResolveFn (next_id s + 3))) (Some (RejectFn (next_id s + 3))),
        Await (next_id s + 3) (RaceResume [first, second] (next_id s)) (RaceThrow (next_id s))] s"
  by (simp add: properRace_snd race_setup_unfold await_Builtin eval_nat_numeral)

lemma delayWithResult_events:
  "snd (delayWithResult r ms s) =
     run_events
       [New, New, SetTimeout (ResolveFn (next_id s + 1)) ms,
        Await (next_id s + 1) (DelayResume r (next_id s)) (DelayThrow (next_id s))] s"
  by (simp add: delayWithResult_snd delay_setup_def await_Builtin)

lemma well_formed_properRace: "well_formed s \<Longrightarrow> well_formed (snd (properRace first second s))"
  unfolding properRace_events by (erule well_formed_events) simp

lemma well_formed_delayWithResult: "well_formed s \<Longrightarrow> well_formed (snd (delayWithResult r ms s))"
  unfolding delayWithResult_events by (erule well_formed_events) simp

theorem reachable_well_formed: "admissible es empty_state \<Longrightarrow> well_formed (run_events es empty_state)"
  by (rule well_formed_events[OF well_formed_empty])

section \<open>The index of a random choice is in range\<close>

declare bits.simps [simp del]

lemma bits_0 [simp]: "bits 0 = 0"
  by (simp add: bits.simps)

lemma bits_pos: "n \<noteq> 0 \<Longrightarrow> bits n = Suc (bits (n div 2))"
  by (subst bits.simps) simp

lemma bits_bounds: "n \<noteq> 0 \<Longrightarrow> 2 ^ (bits n - 1) \<le> n \<and> n < 2 ^ bits n"
proof (induction n rule: bits.induct)
  case (1 n)
  have b: "bits n = Suc (bits (n div 2))" using 1(2) by (rule bits_pos)
  show ?case
  proof (cases "n div 2 = 0")
    case True
    with 1(2) have "n = 1" by presburger
    with b True show ?thesis by simp
  next
    case False
    from 1(1)[OF 1(2) False] have ih: "2 ^ (bits (n div 2) - 1) \<le> n div 2" "n div 2 < 2 ^ bits (n div 2)"
      by simp_all
    from bits_pos[OF False] obtain l where l: "bits (n div 2) = Suc l" by blast
    from ih(1) have "2 * 2 ^ l \<le> 2 * (n div 2)" unfolding l by simp
    also have "\<dots> \<le> n" by presburger
    finally have lo: "2 ^ (bits n - 1) \<le> n" unfolding b l by simp
    from ih(2) have "n div 2 + 1 \<le> 2 ^ bits (n div 2)" by simp
    then have "2 * (n div 2) + 2 \<le> 2 ^ bits n" unfolding b by simp
    moreover have "n < 2 * (n div 2) + 2" by presburger
    ultimately have hi: "n < 2 ^ bits n" by linarith
    from lo hi show ?thesis by simp
  qed
qed

lemma prec_emin: "0 < prec" "prec \<le> emin"
  by (simp_all add: prec_def emin_def)

lemma random_gap:
  assumes m: "m < 2 ^ prec" and z: "m * 2 ^ j < (2::nat) ^ emin"
  shows "m * 2 ^ j + 2 ^ (emin - prec) \<le> (2::nat) ^ emin"
proof -
  consider (low) "j + prec < emin" | (mid) "emin \<le> j + prec" "j \<le> emin" | (high) "emin < j"
    by linarith
  then show ?thesis
  proof cases
    case low
    have "m * 2 ^ j < 2 ^ prec * (2::nat) ^ j" using m by simp
    also have "\<dots> = 2 ^ (prec + j)" by (simp add: power_add)
    also have "\<dots> \<le> 2 ^ (emin - 1)" using low by (intro power_increasing) auto
    finally have a: "m * 2 ^ j < 2 ^ (emin - 1)" .
    have b: "(2::nat) ^ (emin - prec) \<le> 2 ^ (emin - 1)"
      using prec_emin by (intro power_increasing) auto
    have "emin = Suc (emin - 1)" using prec_emin by linarith
    then have "(2::nat) ^ emin = 2 * 2 ^ (emin - 1)" by (metis power_Suc)
    with a b show ?thesis by linarith
  next
    case mid
    have e: "(2::nat) ^ emin = 2 ^ (emin - j) * 2 ^ j"
      using mid(2) by (simp add: power_add[symmetric])
    from z have "m < 2 ^ (emin - j)" unfolding e by simp
    then have "m + 1 \<le> 2 ^ (emin - j)" by simp
    then have "(m + 1) * 2 ^ j \<le> 2 ^ (emin - j) * (2::nat) ^ j" by (rule mult_le_mono1)
    then have a: "m * 2 ^ j + 2 ^ j \<le> (2::nat) ^ emin" unfolding e by (simp add: algebra_simps)
    have "(2::nat) ^ (emin - prec) \<le> 2 ^ j" using mid(1) by (intro power_increasing) auto
    with a show ?thesis by linarith
  next
    case high
    have "(2::nat) ^ emin < 2 ^ j" using high by (intro power_strict_increasing) auto
    with z have "m * 2 ^ j < 1 * (2::nat) ^ j" by linarith
    then have "m < 1" by (simp only: mult_less_cancel2)
    then have "m = 0" by simp
    then show ?thesis by (simp add: power_increasing)
  qed
qed

lemma round_double_less:
  assumes z: "2 ^ prec \<le> Z" and gap: "Z + n * 2 ^ (emin - prec) \<le> n * 2 ^ emin"
    and n: "0 < n" "n < 2 ^ prec"
  shows "round_double Z < n * 2 ^ emin"
proof -
  define k where "k = bits Z - prec"
  define d :: nat where "d = 2 ^ k"
  define q where "q = Z div d"
  define rem where "rem = Z mod d"
  define half :: nat where "half = 2 ^ (k - 1)"
  define N where "N = n * (2::nat) ^ emin"
  have Z0: "Z \<noteq> 0" using z by (metis not_numeral_le_zero power_eq_0_iff zero_neq_numeral le_zero_eq)
  from bits_bounds[OF Z0] have lo: "2 ^ (bits Z - 1) \<le> Z" and hi: "Z < 2 ^ bits Z" by simp_all
  have "(2::nat) ^ prec < 2 ^ bits Z" using z hi by linarith
  then have pl: "prec < bits Z" by (simp add: power_strict_increasing_iff)
  then have k1: "1 \<le> k" and L: "bits Z - 1 = (k - 1) + prec" unfolding k_def by auto
  have d2: "d = 2 * half" unfolding d_def half_def using k1 by (cases k) auto
  have ZN: "Z < N" using gap n(1) unfolding N_def
    by (metis add_lessD1 less_add_same_cancel1 linorder_not_less mult_pos_pos nat_less_le zero_less_numeral zero_less_power order.strict_trans2)
  have e: "(2::nat) ^ emin = 2 ^ (emin - prec) * 2 ^ prec"
    using prec_emin by (simp add: power_add[symmetric])
  have "half * 2 ^ prec \<le> Z" using lo unfolding L half_def by (simp add: power_add)
  moreover have "N = (n * 2 ^ (emin - prec)) * 2 ^ prec"
    unfolding N_def e by (simp add: mult.assoc)
  ultimately have "half * 2 ^ prec < (n * 2 ^ (emin - prec)) * 2 ^ prec"
    using ZN by linarith
  then have f3: "half < n * 2 ^ (emin - prec)" by (simp only: mult_less_cancel2)
  have "n * 2 ^ (emin - prec) < 2 ^ prec * (2::nat) ^ (emin - prec)" using n(2) by simp
  also have "\<dots> = 2 ^ emin" using e by (simp add: mult.commute)
  finally have "half < 2 ^ emin" using f3 by linarith
  then have "k - 1 < emin" unfolding half_def by (simp add: power_strict_increasing_iff)
  then have ke: "k \<le> emin" by simp
  define N' where "N' = n * (2::nat) ^ (emin - k)"
  have NN: "N = N' * d" unfolding N_def N'_def d_def using ke
    by (simp add: power_add[symmetric] mult.assoc)
  have dpos: "0 < d" unfolding d_def by simp
  have qN: "q < N'" unfolding q_def using ZN NN dpos by (simp add: div_less_iff_less_mult)
  have Zq: "Z = q * d + rem" unfolding q_def rem_def by simp
  have cases: "round_double Z = q * d \<or> (round_double Z = (q + 1) * d \<and> half \<le> rem)"
    using z unfolding round_double_def Let_def k_def[symmetric] d_def[symmetric]
      q_def[symmetric] rem_def[symmetric] half_def[symmetric]
    by auto
  then show ?thesis
  proof
    assume "round_double Z = q * d"
    with Zq ZN show ?thesis unfolding N_def by linarith
  next
    assume up: "round_double Z = (q + 1) * d \<and> half \<le> rem"
    have "q + 1 < N'"
    proof (rule ccontr)
      assume "\<not> q + 1 < N'"
      with qN have "N' = q + 1" by simp
      then have "N = q * d + 2 * half" unfolding NN d2 by (simp add: algebra_simps)
      with Zq up have "N \<le> Z + half" by linarith
      with f3 gap show False unfolding N_def by linarith
    qed
    then have "(q + 1) * d < N' * d" using dpos by (simp only: mult_less_cancel2)
    with up show ?thesis unfolding NN[symmetric] N_def by simp
  qed
qed

lemma mul_double_less:
  assumes r: "random_ok rnd" and n: "0 < n" "n < 2 ^ prec"
  shows "mul_double (fst rnd * 2 ^ snd rnd) n < n * 2 ^ emin"
proof -
  let ?z = "fst rnd * 2 ^ snd rnd"
  from r have "?z + 2 ^ (emin - prec) \<le> 2 ^ emin"
    unfolding random_ok_def by (intro random_gap) auto
  then have "(?z + 2 ^ (emin - prec)) * n \<le> 2 ^ emin * n" by (rule mult_le_mono1)
  then have gap: "?z * n + n * 2 ^ (emin - prec) \<le> n * 2 ^ emin"
    by (simp add: algebra_simps)
  show ?thesis
  proof (cases "?z * n < 2 ^ prec")
    case True
    then have "mul_double ?z n = ?z * n" by (simp add: mul_double_def round_double_def)
    moreover have "0 < n * (2::nat) ^ (emin - prec)" using n(1) by simp
    ultimately show ?thesis using gap by linarith
  next
    case False
    then have "2 ^ prec \<le> ?z * n" by simp
    from round_double_less[OF this gap n] show ?thesis by (simp add: mul_double_def)
  qed
qed

text \<open>
  Claim C9.  For every double in \<open>[0, 1)\<close> that \<^verbatim>\<open>Math.random()\<close> can return and every call
  of \<^verbatim>\<open>oneOf\<close> with two to five arguments, the index
  \<^verbatim>\<open>Math.floor(Math.random() * options.length)\<close>, with the product rounded as double
  precision multiplication rounds it, is below \<^verbatim>\<open>options.length\<close>: the value returned is one
  of the arguments, never the \<^verbatim>\<open>undefined\<close> of a read out of range.
\<close>

theorem oneOf_returns_argument:
  assumes "random_ok rnd" "2 \<le> length options" "length options \<le> 5"
  shows "\<exists>x\<in>set options. oneOf rnd options = Some x"
proof -
  let ?n = "length options"
  have "?n < 2 ^ prec" using assms(3) by (simp add: prec_def)
  moreover have "0 < ?n" using assms(2) by linarith
  ultimately have "mul_double (fst rnd * 2 ^ snd rnd) ?n < ?n * 2 ^ emin"
    using assms(1) by (intro mul_double_less)
  then have "floor_double (mul_double (fst rnd * 2 ^ snd rnd) ?n) < ?n"
    unfolding floor_double_def by (simp add: div_less_iff_less_mult)
  then show ?thesis unfolding oneOf_def Let_def by simp
qed

lemma bits_numeral [simp]: "bits (numeral w) = Suc (bits (numeral w div 2))"
  by (subst bits.simps) simp

lemma bits_1 [simp]: "bits 1 = 1" "bits (Suc 0) = 1"
  by (subst bits.simps, simp)+

lemma largest_ok: "random_ok (2 ^ 53 - 1, 1021)"
  by (simp add: random_ok_def prec_def emin_def)

lemma five_options:
  "2 \<le> length [''a'', ''b'', ''c'', ''d'', ''e'']" "length [''a'', ''b'', ''c'', ''d'', ''e''] \<le> 5"
  by simp_all

lemma largest_of_five:
  "oneOf (2 ^ 53 - 1, 1021) [''a'', ''b'', ''c'', ''d'', ''e''] = Some ''e''"
  by (simp add: oneOf_def mul_double_def round_double_def floor_double_def prec_def emin_def Let_def)

theorem oneOf_returns_argument_witness:
  "random_ok (2 ^ 53 - 1, 1021) \<and>
   2 \<le> length [''a'', ''b'', ''c'', ''d'', ''e''] \<and> length [''a'', ''b'', ''c'', ''d'', ''e''] \<le> 5 \<and>
   (\<exists>x\<in>set [''a'', ''b'', ''c'', ''d'', ''e''].
      oneOf (2 ^ 53 - 1, 1021) [''a'', ''b'', ''c'', ''d'', ''e''] = Some x) \<and>
   oneOf (2 ^ 53 - 1, 1021) [''a'', ''b'', ''c'', ''d'', ''e''] = Some ''e''"
  using oneOf_returns_argument[OF largest_ok five_options] largest_ok five_options largest_of_five
  by (intro conjI)

end
